theory Spec2Isabelle
  imports Complex_Main "HOL-Library.Word" "HOL-Library.Log_Nat"
begin

section \<open>Data model of \<^verbatim>\<open>src/segmentation/main.cpp\<close>\<close>

text \<open>
  Modelling conventions.
  \<^item> \<^verbatim>\<open>unsigned char\<close> channels are \<open>8 word\<close>; the C++ \<^verbatim>\<open>int\<close> coordinates, sizes
    and counters are \<open>int\<close> (an image that the decoder accepts has
    \<open>width * height * 3 \<le> INT_MAX\<close>, so none of the source's \<^verbatim>\<open>int\<close> expressions wraps).
  \<^item> A finite \<^verbatim>\<open>float\<close> or \<^verbatim>\<open>double\<close> value is the \<open>real\<close> number it denotes. The \<^verbatim>\<open>float\<close>
    additions and divisions of the probability aggregation round their result to single
    precision (\<open>roundSingle\<close> below); the one division that can yield no number is marked
    where it occurs. The comparisons of the source are exact, and the square root of the
    Euclidean metric is the real square root.
    The two index computations \<^verbatim>\<open>static_cast<..>(0.8 * n)\<close> and
    \<^verbatim>\<open>static_cast<..>(0.9 * n)\<close> truncate, and are written \<open>(4 * n) div 5\<close> and
    \<open>(9 * n) div 10\<close>.
  \<^item> A \<^verbatim>\<open>std::vector\<close> is a list. An access outside the vector is undefined behaviour
    in the source; the model returns \<open>None\<close> there.
  \<^item> \<^verbatim>\<open>const Color& startColor\<close> is a reference. Both callers bind it to the vector
    element \<^verbatim>\<open>image[y * width + x]\<close>, so the model carries the index of that element
    and reads the vector through it whenever the source reads \<^verbatim>\<open>startColor\<close>.
\<close>

record Color =
  r :: "8 word"
  g :: "8 word"
  b :: "8 word"

record Config =
  k :: real
  use8Way :: bool
  euclidif :: bool
  adj :: bool
  minComponentSize :: int
  buildingBlockTreshold :: real

text \<open>\<^verbatim>\<open>colorDifference\<close> (lines 34-44). The channels are promoted to \<^verbatim>\<open>int\<close> before the
  subtraction.\<close>

definition colorDifference :: "Color \<Rightarrow> Color \<Rightarrow> bool \<Rightarrow> real" where
  "colorDifference c1 c2 euclid =
     (if euclid then
        sqrt (real_of_int ((uint (r c1) - uint (r c2))\<^sup>2) +
              real_of_int ((uint (g c1) - uint (g c2))\<^sup>2) +
              real_of_int ((uint (b c1) - uint (b c2))\<^sup>2))
      else
        real_of_int (\<bar>uint (r c1) - uint (r c2)\<bar> +
                     \<bar>uint (g c1) - uint (g c2)\<bar> +
                     \<bar>uint (b c1) - uint (b c2)\<bar>))"

text \<open>The state shared between \<^verbatim>\<open>floodFillIterative\<close> and its callers: the three vectors
  passed by reference and the five global variables of line 46.\<close>

record Store =
  image_buf :: "Color list"
  visited :: "bool list"
  bigMask :: "bool list"
  currentComponentXmin :: int
  currentComponentXmax :: int
  currentComponentYmin :: int
  currentComponentYmax :: int
  currentComponentSize :: int

type_synonym entry = "int \<times> int \<times> Color"

section \<open>The flood fill (lines 49-93)\<close>

text \<open>The entries pushed at lines 80-90, in the order of the pushes.\<close>

definition pushed :: "bool \<Rightarrow> int \<Rightarrow> int \<Rightarrow> Color \<Rightarrow> entry list" where
  "pushed eightWay x y currentColor =
     [(x + 1, y, currentColor), (x - 1, y, currentColor),
      (x, y + 1, currentColor), (x, y - 1, currentColor)] @
     (if eightWay then
        [(x + 1, y + 1, currentColor), (x + 1, y - 1, currentColor),
         (x - 1, y + 1, currentColor), (x - 1, y - 1, currentColor)]
      else [])"

text \<open>One iteration of the \<^verbatim>\<open>while\<close> loop (lines 56-91), on a non-empty stack whose top
  entry is \<open>ent\<close> and whose remainder is \<open>rest\<close>. The stack is a list with the top at the
  head, so a sequence of pushes is prepended in reverse. The parameters \<^verbatim>\<open>k\<close>,
  \<^verbatim>\<open>use8Way\<close>, \<^verbatim>\<open>adj\<close> and \<^verbatim>\<open>euclidif\<close> are read from the configuration record, from
  which both callers take them.\<close>

definition floodFillStep ::
  "Config \<Rightarrow> int \<Rightarrow> int \<Rightarrow> nat \<Rightarrow> Color \<Rightarrow> entry \<Rightarrow> entry list \<Rightarrow> 'a Store_scheme
     \<Rightarrow> (entry list \<times> 'a Store_scheme) option" where
  "floodFillStep cfg width height startColor newColor ent rest s =
     (case ent of (x, y, neighborColor) \<Rightarrow>
        if x < 0 \<or> width \<le> x \<or> y < 0 \<or> height \<le> y then Some (rest, s)
        else
          let i = nat (y * width + x) in
          if length (visited s) \<le> i then None
          else if visited s ! i then Some (rest, s)
          else if length (bigMask s) \<le> i \<or> length (image_buf s) \<le> i \<or>
                  (\<not> adj cfg \<and> length (image_buf s) \<le> startColor) then None
          else
            let s1 = s\<lparr>currentComponentXmin := min (currentComponentXmin s) x,
                       currentComponentXmax := max (currentComponentXmax s) x,
                       currentComponentYmin := min (currentComponentYmin s) y,
                       currentComponentYmax := max (currentComponentYmax s) y,
                       currentComponentSize := currentComponentSize s + 1,
                       visited := (visited s)[i := True],
                       bigMask := (bigMask s)[i := True]\<rparr>;
                currentColor = image_buf s1 ! i;
                compareColor = (if adj cfg then neighborColor else image_buf s1 ! startColor)
            in
              if colorDifference currentColor compareColor (euclidif cfg) \<le> k cfg
              then Some (rev (pushed (use8Way cfg) x y currentColor) @ rest,
                         s1\<lparr>image_buf := (image_buf s1)[i := newColor]\<rparr>)
              else Some (rest, s1))"

text \<open>The number of pixels not yet visited, and the termination order of the loop: an
  iteration either visits a new pixel, or leaves \<open>visited\<close> alone and shortens the stack.\<close>

definition unvisited :: "'a Store_scheme \<Rightarrow> nat" where
  "unvisited s = length (filter Not (visited s))"

lemma filter_Not_update_less:
  "i < length xs \<Longrightarrow> \<not> xs ! i \<Longrightarrow>
     length (filter Not (xs[i := True])) < length (filter Not xs)"
proof (induction xs arbitrary: i)
  case Nil
  then show ?case by simp
next
  case (Cons x xs)
  then show ?case by (cases i) auto
qed

lemma floodFillStep_decreases:
  assumes "floodFillStep cfg width height startColor newColor ent rest s = Some (stk', s')"
  shows "unvisited s' < unvisited s \<or>
         (unvisited s' = unvisited s \<and> length stk' < length (ent # rest))"
  using assms
  by (auto simp: floodFillStep_def unvisited_def Let_def filter_Not_update_less
           split: prod.splits if_splits)

function floodFillLoop ::
  "Config \<Rightarrow> int \<Rightarrow> int \<Rightarrow> nat \<Rightarrow> Color \<Rightarrow> entry list \<Rightarrow> 'a Store_scheme
     \<Rightarrow> 'a Store_scheme option" where
  "floodFillLoop cfg width height startColor newColor stk s =
     (case stk of
        [] \<Rightarrow> Some s
      | ent # rest \<Rightarrow>
          (case floodFillStep cfg width height startColor newColor ent rest s of
             None \<Rightarrow> None
           | Some (stk', s') \<Rightarrow> floodFillLoop cfg width height startColor newColor stk' s'))"
  by pat_completeness auto
termination
proof (relation "measures
          [\<lambda>(cfg, width, height, startColor, newColor, stk, s :: 'a Store_scheme). unvisited s,
           \<lambda>(cfg, width, height, startColor, newColor, stk, s). length stk]", goal_cases)
  case 1
  show ?case by simp
next
  case (2 cfg width height startColor newColor stk s ent rest x2 stk' s')
  then show ?case
    using floodFillStep_decreases [of cfg width height startColor newColor ent rest s stk' s']
    by auto
qed

declare floodFillLoop.simps [simp del]

lemma floodFillLoop_Nil [simp]:
  "floodFillLoop cfg width height startColor newColor [] s = Some s"
  by (simp add: floodFillLoop.simps)

lemma floodFillLoop_Cons [simp]:
  "floodFillLoop cfg width height startColor newColor (ent # rest) s =
     (case floodFillStep cfg width height startColor newColor ent rest s of
        None \<Rightarrow> None
      | Some (stk', s') \<Rightarrow> floodFillLoop cfg width height startColor newColor stk' s')"
  by (simp add: floodFillLoop.simps [of _ _ _ _ _ "ent # rest"])

text \<open>An executable form of the test of line 77, for evaluating the model on concrete
  images: \<open>sqrt a \<le> t\<close> is decided on the squares.\<close>

definition closeEnough :: "Color \<Rightarrow> Color \<Rightarrow> bool \<Rightarrow> real \<Rightarrow> bool" where
  "closeEnough c1 c2 euclid threshold \<longleftrightarrow> colorDifference c1 c2 euclid \<le> threshold"

lemma sqrt_le_iff_sq:
  assumes "0 \<le> a"
  shows "sqrt a \<le> t \<longleftrightarrow> 0 \<le> t \<and> a \<le> t\<^sup>2"
proof
  assume le: "sqrt a \<le> t"
  have "0 \<le> sqrt a"
    using assms by simp
  with le have "0 \<le> t"
    by linarith
  moreover from le \<open>0 \<le> sqrt a\<close> have "(sqrt a)\<^sup>2 \<le> t\<^sup>2"
    by (intro power_mono) auto
  ultimately show "0 \<le> t \<and> a \<le> t\<^sup>2"
    using assms by simp
next
  assume "0 \<le> t \<and> a \<le> t\<^sup>2"
  then show "sqrt a \<le> t"
    by (simp add: real_le_lsqrt assms)
qed

lemma closeEnough_code [code]:
  "closeEnough c1 c2 euclid threshold =
     (if euclid then
        0 \<le> threshold \<and>
        real_of_int ((uint (r c1) - uint (r c2))\<^sup>2 + (uint (g c1) - uint (g c2))\<^sup>2 +
                     (uint (b c1) - uint (b c2))\<^sup>2) \<le> threshold\<^sup>2
      else
        real_of_int (\<bar>uint (r c1) - uint (r c2)\<bar> + \<bar>uint (g c1) - uint (g c2)\<bar> +
                     \<bar>uint (b c1) - uint (b c2)\<bar>) \<le> threshold)"
  by (simp add: closeEnough_def colorDifference_def sqrt_le_iff_sq)

lemma floodFillStep_code [code]:
  "floodFillStep cfg width height startColor newColor ent rest s =
     (case ent of (x, y, neighborColor) \<Rightarrow>
        if x < 0 \<or> width \<le> x \<or> y < 0 \<or> height \<le> y then Some (rest, s)
        else
          let i = nat (y * width + x) in
          if length (visited s) \<le> i then None
          else if visited s ! i then Some (rest, s)
          else if length (bigMask s) \<le> i \<or> length (image_buf s) \<le> i \<or>
                  (\<not> adj cfg \<and> length (image_buf s) \<le> startColor) then None
          else
            let s1 = s\<lparr>currentComponentXmin := min (currentComponentXmin s) x,
                       currentComponentXmax := max (currentComponentXmax s) x,
                       currentComponentYmin := min (currentComponentYmin s) y,
                       currentComponentYmax := max (currentComponentYmax s) y,
                       currentComponentSize := currentComponentSize s + 1,
                       visited := (visited s)[i := True],
                       bigMask := (bigMask s)[i := True]\<rparr>;
                currentColor = image_buf s1 ! i;
                compareColor = (if adj cfg then neighborColor else image_buf s1 ! startColor)
            in
              if closeEnough currentColor compareColor (euclidif cfg) (k cfg)
              then Some (rev (pushed (use8Way cfg) x y currentColor) @ rest,
                         s1\<lparr>image_buf := (image_buf s1)[i := newColor]\<rparr>)
              else Some (rest, s1))"
  unfolding floodFillStep_def closeEnough_def by (rule refl)

text \<open>\<^verbatim>\<open>floodFillIterative\<close>: line 53 reads \<^verbatim>\<open>startColor\<close> through the reference and pushes
  a copy of it with the seed.\<close>

definition floodFillIterative ::
  "Config \<Rightarrow> int \<Rightarrow> int \<Rightarrow> int \<Rightarrow> int \<Rightarrow> nat \<Rightarrow> Color \<Rightarrow> 'a Store_scheme
     \<Rightarrow> 'a Store_scheme option" where
  "floodFillIterative cfg startX startY width height startColor newColor s =
     (if length (image_buf s) \<le> startColor then None
      else floodFillLoop cfg width height startColor newColor
             [(startX, startY, image_buf s ! startColor)] s)"

section \<open>Single-precision arithmetic\<close>

text \<open>The type \<^verbatim>\<open>float\<close> is the IEEE 754 binary32 format: significands of 24 bits, the
  exponents of normal numbers from \<open>-126\<close> to \<open>127\<close>, gradual underflow below, and every
  operation rounded to the nearest value of the format, a tie going to the even
  significand. An operation on finite values is the exact operation on the reals followed
  by \<open>roundSingle\<close>. For \<open>x\<close> with \<open>2 ^ e \<le> \<bar>x\<bar> < 2 ^ (e + 1)\<close> the integer part of
  \<open>\<bar>x\<bar> * 2 ^ 149\<close> has \<open>e + 150\<close> bits, and the values of the format near \<open>x\<close> are the
  multiples of \<open>2 ^ (e - 23)\<close>, with \<open>e\<close> not below \<open>-126\<close>. The format turns a result of
  magnitude \<open>2 ^ 128\<close> or more into an infinity; infinities, NaN and the sign of zero are
  not values of the model, which is that of the arithmetic on heatmaps whose sums stay
  below \<open>2 ^ 128\<close> (a heatmap holds probabilities).\<close>

definition roundToEven :: "real \<Rightarrow> int" where
  "roundToEven q =
     (let f = \<lfloor>q\<rfloor>; d = q - of_int f in
      if d < 1 / 2 then f else if 1 / 2 < d then f + 1 else if even f then f else f + 1)"

definition pow2 :: "int \<Rightarrow> real" where
  "pow2 e = (if 0 \<le> e then 2 ^ nat e else 1 / 2 ^ nat (- e))"

definition roundSingle :: "real \<Rightarrow> real" where
  "roundSingle x =
     (let e = max (- 126) (bitlen \<lfloor>\<bar>x\<bar> * 2 ^ 149\<rfloor> - 150);
          ulp = pow2 (e - 23)
      in of_int (roundToEven (x / ulp)) * ulp)"

text \<open>\<^verbatim>\<open>a + b\<close> and \<^verbatim>\<open>a / b\<close> on two \<^verbatim>\<open>float\<close> operands, and the conversion of an \<^verbatim>\<open>int\<close> to
  \<^verbatim>\<open>float\<close> (exact up to \<open>2 ^ 24\<close>, rounded above).\<close>

definition float_add :: "real \<Rightarrow> real \<Rightarrow> real" where
  "float_add a c = roundSingle (a + c)"

definition float_div :: "real \<Rightarrow> real \<Rightarrow> real" where
  "float_div a c = roundSingle (a / c)"

definition float_of_int :: "int \<Rightarrow> real" where
  "float_of_int n = roundSingle (of_int n)"

section \<open>Component extraction in \<^verbatim>\<open>processImage\<close> (lines 449-540)\<close>

record ComponentData =
  id_comp :: int
  xMin :: int
  xMax :: int
  yMin :: int
  yMax :: int
  size_comp :: int
  avgProbability :: real
  mask_comp :: "bool list"

text \<open>The state of the raster scan: the shared store, the component vector and counter,
  and the position in the sequence of values drawn from the random generator. The field
  \<open>fillSizes\<close> is an observation log that the source does not have: the value of
  \<^verbatim>\<open>currentComponentSize\<close> after each call of \<^verbatim>\<open>floodFillIterative\<close>, in call order.\<close>

record ScanState = Store +
  components :: "ComponentData list"
  componentCount :: int
  genPos :: nat
  fillSizes :: "int list"

text \<open>The position of pixel \<open>(cx, cy)\<close> in a vector, when it lies inside the vector.\<close>

definition cellIndex :: "int \<Rightarrow> 'a list \<Rightarrow> int \<Rightarrow> int \<Rightarrow> nat option" where
  "cellIndex width xs cx cy =
     (let j = cy * width + cx in
      if 0 \<le> j \<and> nat j < length xs then Some (nat j) else None)"

text \<open>The iteration orders of the nested loops: the clearing loops (lines 495-499 and
  532-536) run over the columns of the bounding box and inside over its rows; the mask
  extraction (lines 507-516) and the raster scan (lines 473-474) run over the rows and
  inside over the columns.\<close>

definition columnMajor :: "int \<Rightarrow> int \<Rightarrow> int \<Rightarrow> int \<Rightarrow> (int \<times> int) list" where
  "columnMajor x0 x1 y0 y1 = concat (map (\<lambda>cx. map (\<lambda>cy. (cx, cy)) [y0..y1]) [x0..x1])"

definition rowMajor :: "int \<Rightarrow> int \<Rightarrow> int \<Rightarrow> int \<Rightarrow> (int \<times> int) list" where
  "rowMajor x0 x1 y0 y1 = concat (map (\<lambda>cy. map (\<lambda>cx. (cx, cy)) [x0..x1]) [y0..y1])"

fun clearCells :: "int \<Rightarrow> (int \<times> int) list \<Rightarrow> bool list \<Rightarrow> bool list option" where
  "clearCells width [] m = Some m"
| "clearCells width ((cx, cy) # cs) m =
     (case cellIndex width m cx cy of
        None \<Rightarrow> None
      | Some j \<Rightarrow> clearCells width cs (m[j := False]))"

text \<open>The body of the extraction loops (lines 509-514) over a list of cells; the
  accumulator is \<^verbatim>\<open>mask\<close>, \<^verbatim>\<open>totalProbability\<close> and \<^verbatim>\<open>pixelCount\<close>. Line 512 adds two
  \<^verbatim>\<open>float\<close> values.\<close>

fun extractCells ::
  "int \<Rightarrow> real list \<Rightarrow> bool list \<Rightarrow> int \<Rightarrow> int \<Rightarrow> int \<Rightarrow> (int \<times> int) list
     \<Rightarrow> bool list \<times> real \<times> int \<Rightarrow> (bool list \<times> real \<times> int) option" where
  "extractCells width heatmap bigM x0 y0 compWidth [] acc = Some acc"
| "extractCells width heatmap bigM x0 y0 compWidth ((cx, cy) # cs) (msk, totalProbability, pixelCount) =
     (case cellIndex width bigM cx cy of
        None \<Rightarrow> None
      | Some j \<Rightarrow>
          if bigM ! j then
            let localIndex = (cy - y0) * compWidth + (cx - x0) in
            if localIndex < 0 \<or> length msk \<le> nat localIndex \<or> length heatmap \<le> j then None
            else extractCells width heatmap bigM x0 y0 compWidth cs
                   (msk[nat localIndex := True], float_add totalProbability (heatmap ! j),
                    pixelCount + 1)
          else extractCells width heatmap bigM x0 y0 compWidth cs
                 (msk, totalProbability, pixelCount))"

text \<open>Lines 504-517: the local mask of the bounding box and the average heatmap value
  under it. A negative size makes the constructor of the mask vector throw. In the
  division of line 517 the count is converted to \<^verbatim>\<open>float\<close>.\<close>

definition extractMask ::
  "int \<Rightarrow> real list \<Rightarrow> bool list \<Rightarrow> int \<Rightarrow> int \<Rightarrow> int \<Rightarrow> int \<Rightarrow> (bool list \<times> real) option" where
  "extractMask width heatmap bigM x0 x1 y0 y1 =
     (let compWidth = x1 - x0 + 1; compHeight = y1 - y0 + 1 in
      if compWidth * compHeight < 0 then None
      else
        case extractCells width heatmap bigM x0 y0 compWidth (rowMajor x0 x1 y0 y1)
               (replicate (nat (compWidth * compHeight)) False, 0, 0) of
          None \<Rightarrow> None
        | Some (msk, totalProbability, pixelCount) \<Rightarrow>
            Some (msk, if pixelCount > 0
                       then float_div totalProbability (float_of_int pixelCount) else 0))"


text \<open>C++ integer division truncates towards zero.\<close>

definition cdiv :: "int \<Rightarrow> int \<Rightarrow> int" where
  "cdiv a d = sgn a * sgn d * (\<bar>a\<bar> div \<bar>d\<bar>)"

text \<open>The discard test of lines 491-494 on the globals left by the flood fill.\<close>

definition dropped :: "Config \<Rightarrow> 'a Store_scheme \<Rightarrow> bool" where
  "dropped cfg s =
     (let compWidth = currentComponentXmax s - currentComponentXmin s + 1;
          compHeight = currentComponentYmax s - currentComponentYmin s + 1 in
      currentComponentSize s < minComponentSize cfg \<or>
      currentComponentSize s < cdiv (compWidth * compHeight) 3)"

text \<open>Lines 476-537: the work done for a pixel that the scan finds unvisited. The random
  generator is a sequence \<open>gen\<close> of channel values; the three draws of lines 476-478 take
  the next three.\<close>

definition processImage_region ::
  "Config \<Rightarrow> int \<Rightarrow> int \<Rightarrow> real list \<Rightarrow> (nat \<Rightarrow> 8 word) \<Rightarrow> int \<Rightarrow> int \<Rightarrow> ScanState
     \<Rightarrow> ScanState option" where
  "processImage_region cfg width height heatmap gen x y st =
     (let newColor = \<lparr>r = gen (genPos st), g = gen (genPos st + 1), b = gen (genPos st + 2)\<rparr>;
          st1 = st\<lparr>genPos := genPos st + 3,
                    currentComponentXmin := width,
                    currentComponentXmax := 0,
                    currentComponentYmin := height,
                    currentComponentYmax := 0,
                    currentComponentSize := 0\<rparr>
      in
      case floodFillIterative cfg x y width height (nat (y * width + x)) newColor st1 of
        None \<Rightarrow> None
      | Some st2 \<Rightarrow>
          let st3 = st2\<lparr>fillSizes := fillSizes st2 @ [currentComponentSize st2]\<rparr>;
              box = columnMajor (currentComponentXmin st3) (currentComponentXmax st3)
                      (currentComponentYmin st3) (currentComponentYmax st3)
          in
          if dropped cfg st3 then
            (case clearCells width box (bigMask st3) of
               None \<Rightarrow> None
             | Some m \<Rightarrow> Some (st3\<lparr>bigMask := m\<rparr>))
          else
            (case extractMask width heatmap (bigMask st3)
                    (currentComponentXmin st3) (currentComponentXmax st3)
                    (currentComponentYmin st3) (currentComponentYmax st3) of
               None \<Rightarrow> None
             | Some (msk, avgProb) \<Rightarrow>
                 let compData = \<lparr>id_comp = componentCount st3 + 1,
                                 xMin = currentComponentXmin st3,
                                 xMax = currentComponentXmax st3,
                                 yMin = currentComponentYmin st3,
                                 yMax = currentComponentYmax st3,
                                 size_comp = currentComponentSize st3,
                                 avgProbability = avgProb,
                                 mask_comp = msk\<rparr>
                 in
                 (case clearCells width box (bigMask st3) of
                    None \<Rightarrow> None
                  | Some m \<Rightarrow>
                      Some (st3\<lparr>bigMask := m,
                                components := components st3 @ [compData],
                                componentCount := componentCount st3 + 1\<rparr>))))"

text \<open>Line 475 and the body it guards.\<close>

definition processImage_pixel ::
  "Config \<Rightarrow> int \<Rightarrow> int \<Rightarrow> real list \<Rightarrow> (nat \<Rightarrow> 8 word) \<Rightarrow> int \<Rightarrow> int \<Rightarrow> ScanState
     \<Rightarrow> ScanState option" where
  "processImage_pixel cfg width height heatmap gen x y st =
     (case cellIndex width (visited st) x y of
        None \<Rightarrow> None
      | Some j \<Rightarrow>
          if visited st ! j then Some st
          else processImage_region cfg width height heatmap gen x y st)"

fun scanCells ::
  "Config \<Rightarrow> int \<Rightarrow> int \<Rightarrow> real list \<Rightarrow> (nat \<Rightarrow> 8 word) \<Rightarrow> (int \<times> int) list \<Rightarrow> ScanState
     \<Rightarrow> ScanState option" where
  "scanCells cfg width height heatmap gen [] st = Some st"
| "scanCells cfg width height heatmap gen ((x, y) # cs) st =
     (case processImage_pixel cfg width height heatmap gen x y st of
        None \<Rightarrow> None
      | Some st' \<Rightarrow> scanCells cfg width height heatmap gen cs st')"

text \<open>Lines 460-470: the state in which the scan starts. The globals of line 46 have
  static storage and start at zero.\<close>

definition initialState :: "int \<Rightarrow> int \<Rightarrow> Color list \<Rightarrow> ScanState" where
  "initialState width height img =
     \<lparr>image_buf = img,
      visited = replicate (nat (width * height)) False,
      bigMask = replicate (nat (width * height)) False,
      currentComponentXmin = 0,
      currentComponentXmax = 0,
      currentComponentYmin = 0,
      currentComponentYmax = 0,
      currentComponentSize = 0,
      components = [],
      componentCount = 0,
      genPos = 0,
      fillSizes = []\<rparr>"

text \<open>Lines 473-540: the raster scan.\<close>

definition processImage_scan ::
  "Config \<Rightarrow> int \<Rightarrow> int \<Rightarrow> real list \<Rightarrow> (nat \<Rightarrow> 8 word) \<Rightarrow> ScanState \<Rightarrow> ScanState option" where
  "processImage_scan cfg width height heatmap gen st =
     scanCells cfg width height heatmap gen (rowMajor 0 (width - 1) 0 (height - 1)) st"

section \<open>Heatmap input and classification in \<^verbatim>\<open>processImage\<close>\<close>

datatype error = ImageLoadFailed | HeatmapOpenFailed | HeatmapReadFailed

text \<open>Lines 403-416. The file is absent (\<open>None\<close>) or a sequence of bytes. The source asks
  the stream for \<^verbatim>\<open>width * height * sizeof(float)\<close> bytes and then tests the stream: it is
  in a failed state exactly when the file ended before that many bytes were delivered.
  Nothing inspects what follows them in the file.\<close>

definition readHeatmap :: "int \<Rightarrow> int \<Rightarrow> 8 word list option \<Rightarrow> error + 8 word list" where
  "readHeatmap width height file =
     (case file of
        None \<Rightarrow> Inl HeatmapOpenFailed
      | Some bytes \<Rightarrow>
          let n = nat (width * height) * 4 in
          if length bytes < n then Inl HeatmapReadFailed else Inr (take n bytes))"

text \<open>The bytes read are reinterpreted as an array of floats, four bytes each. The value
  of a four-byte group is a parameter \<open>floatOf\<close> of the model.\<close>

fun decodeFloats :: "(8 word list \<Rightarrow> real) \<Rightarrow> 8 word list \<Rightarrow> real list" where
  "decodeFloats floatOf (b0 # b1 # b2 # b3 # rest) =
     floatOf [b0, b1, b2, b3] # decodeFloats floatOf rest"
| "decodeFloats floatOf _ = []"

text \<open>Lines 420-425. For an empty vector the source computes the index
  \<^verbatim>\<open>size() - 1\<close> in \<^verbatim>\<open>size_t\<close>, which wraps; the read is outside the vector either way.\<close>

definition probabilityThreshold80 :: "real list \<Rightarrow> real option" where
  "probabilityThreshold80 heatmap =
     (let sortedHeatmap = sort heatmap;
          index80_prob = (4 * length sortedHeatmap) div 5;
          index80_prob = (if length sortedHeatmap \<le> index80_prob
                          then length sortedHeatmap - 1 else index80_prob)
      in if index80_prob < length sortedHeatmap
         then Some (sortedHeatmap ! index80_prob) else None)"

text \<open>Lines 544-554.\<close>

definition sizeThreshold80 :: "ComponentData list \<Rightarrow> int" where
  "sizeThreshold80 comps =
     (let sizes = sort (map size_comp comps) in
      if sizes = [] then 0
      else
        let index80_size = (9 * length sizes) div 10;
            index80_size = (if length sizes \<le> index80_size
                            then length sizes - 1 else index80_size)
        in sizes ! index80_size)"

text \<open>Line 572.\<close>

definition isBuildingBlock :: "real \<Rightarrow> int \<Rightarrow> ComponentData \<Rightarrow> bool" where
  "isBuildingBlock probThreshold sizeThr cmp \<longleftrightarrow>
     avgProbability cmp \<ge> probThreshold \<and> size_comp cmp \<le> sizeThr"

text \<open>What a run of \<^verbatim>\<open>processImage\<close> yields: the two thresholds, the components in
  discovery order, each with its label, and the recoloured image. Directory creation,
  the JSON file and the encoding of the output images are outside the model and taken to
  succeed.\<close>

record Result =
  probabilityThreshold :: real
  sizeThreshold :: int
  labelled :: "(ComponentData \<times> bool) list"
  segmentation :: "Color list"

text \<open>Lines 418-603, from the heatmap in memory to the labels.\<close>

definition processImage_run ::
  "Config \<Rightarrow> int \<Rightarrow> int \<Rightarrow> Color list \<Rightarrow> real list \<Rightarrow> (nat \<Rightarrow> 8 word) \<Rightarrow> Result option" where
  "processImage_run cfg width height img heatmap gen =
     (case probabilityThreshold80 heatmap of
        None \<Rightarrow> None
      | Some pt \<Rightarrow>
          (case processImage_scan cfg width height heatmap gen (initialState width height img) of
             None \<Rightarrow> None
           | Some st \<Rightarrow>
               let szt = sizeThreshold80 (components st) in
               Some \<lparr>probabilityThreshold = pt,
                     sizeThreshold = szt,
                     labelled = map (\<lambda>cmp. (cmp, isBuildingBlock pt szt cmp)) (components st),
                     segmentation = image_buf st\<rparr>))"

text \<open>\<^verbatim>\<open>processImage\<close>: the decoded image (\<open>None\<close> when the decoder fails) and the heatmap
  file are the inputs. An \<open>Inl\<close> is one of the early returns of lines 394-415.\<close>

definition processImage ::
  "(8 word list \<Rightarrow> real) \<Rightarrow> (int \<times> int \<times> Color list) option \<Rightarrow> 8 word list option
     \<Rightarrow> (nat \<Rightarrow> 8 word) \<Rightarrow> Config \<Rightarrow> (error + Result) option" where
  "processImage floatOf imgData heatmapFile gen cfg =
     (case imgData of
        None \<Rightarrow> Some (Inl ImageLoadFailed)
      | Some (width, height, img) \<Rightarrow>
          (case readHeatmap width height heatmapFile of
             Inl e \<Rightarrow> Some (Inl e)
           | Inr bytes \<Rightarrow>
               map_option Inr
                 (processImage_run cfg width height img (decodeFloats floatOf bytes) gen)))"

section \<open>The classification rule as the specification words it\<close>

text \<open>Section 4.5 of the specification: both thresholds are taken over the components of
  the image, at rank \<open>\<lceil>0.8 N\<rceil>\<close> of the average probabilities and at rank \<open>\<lceil>0.9 N\<rceil>\<close> of
  the pixel counts, clamped to the last index.\<close>

definition spec_probabilityThreshold :: "ComponentData list \<Rightarrow> real" where
  "spec_probabilityThreshold comps =
     sort (map avgProbability comps) !
       min (nat \<lceil>(8 / 10 :: real) * real (length comps)\<rceil>) (length comps - 1)"

definition spec_sizeThreshold :: "ComponentData list \<Rightarrow> int" where
  "spec_sizeThreshold comps =
     sort (map size_comp comps) !
       min (nat \<lceil>(9 / 10 :: real) * real (length comps)\<rceil>) (length comps - 1)"

section \<open>Vocabulary of the properties\<close>

text \<open>A coordinate pair inside the image, its position in the row-major vectors, and a
  store whose three vectors have one entry per pixel.\<close>

definition inBounds :: "int \<Rightarrow> int \<Rightarrow> int \<Rightarrow> int \<Rightarrow> bool" where
  "inBounds width height x y \<longleftrightarrow> 0 \<le> x \<and> x < width \<and> 0 \<le> y \<and> y < height"

definition pix :: "int \<Rightarrow> int \<Rightarrow> int \<Rightarrow> nat" where
  "pix width x y = nat (y * width + x)"

definition wellFormed :: "int \<Rightarrow> int \<Rightarrow> 'a Store_scheme \<Rightarrow> bool" where
  "wellFormed width height s \<longleftrightarrow>
     0 \<le> width \<and> 0 \<le> height \<and>
     length (visited s) = nat (width * height) \<and>
     length (bigMask s) = nat (width * height) \<and>
     length (image_buf s) = nat (width * height)"

section \<open>Concrete inputs\<close>

definition rgb :: "8 word \<Rightarrow> 8 word \<Rightarrow> 8 word \<Rightarrow> Color" where
  "rgb x y z = \<lparr>r = x, g = y, b = z\<rparr>"

text \<open>A configuration with 4-way connectivity, the Manhattan metric and no size filter.\<close>

definition exampleConfig :: "real \<Rightarrow> bool \<Rightarrow> Config" where
  "exampleConfig threshold chained =
     \<lparr>k = threshold, use8Way = False, euclidif = False, adj = chained,
      minComponentSize = 1, buildingBlockTreshold = 0\<rparr>"

text \<open>The two pixels of the example of section 8 of the specification, as a 2 x 1
  image, in a store in which nothing is visited.\<close>

definition twoPixels :: "Color list" where
  "twoPixels = [rgb 10 10 10, rgb 12 11 9]"

definition freshStore :: "Color list \<Rightarrow> Store" where
  "freshStore img =
     \<lparr>image_buf = img,
      visited = replicate (length img) False,
      bigMask = replicate (length img) False,
      currentComponentXmin = 0, currentComponentXmax = 0,
      currentComponentYmin = 0, currentComponentYmax = 0,
      currentComponentSize = 0\<rparr>"

text \<open>Two equal pixels with heatmap values 0 and 1.\<close>

definition equalPixels :: "Color list" where
  "equalPixels = [rgb 10 10 10, rgb 10 10 10]"

text \<open>A row of 23 pixels: two equal pixels and then colours that alternate, so that with
  \<open>k = 0\<close> the scan finds one region of three pixels followed by ten regions of two.\<close>

definition stripes :: "Color list" where
  "stripes = rgb 0 0 0 # rgb 0 0 0 # concat (replicate 10 [rgb 50 50 50, rgb 90 90 90]) @ [rgb 50 50 50]"

text \<open>Three pixels in a row; each differs from the first by at most 4 in the Manhattan
  metric.\<close>

definition threePixels :: "Color list" where
  "threePixels = [rgb 10 10 10, rgb 12 11 9, rgb 11 10 10]"

section \<open>Pixel positions\<close>

lemma pix_less:
  assumes "inBounds width height x y"
  shows "pix width x y < nat (width * height)"
proof -
  from assms have xy: "0 \<le> x" "x < width" "0 \<le> y" "y < height"
    by (auto simp: inBounds_def)
  have "y * width + x < (y + 1) * width"
    using xy by (simp add: algebra_simps)
  also have "(y + 1) * width \<le> height * width"
    using xy by (intro mult_right_mono) auto
  finally have "y * width + x < width * height"
    by (simp add: mult.commute)
  moreover have "0 \<le> y * width + x"
    using xy by simp
  ultimately show ?thesis
    by (simp add: pix_def)
qed

lemma pix_inj:
  assumes "inBounds width height x y" and "inBounds width height x' y'"
    and "pix width x y = pix width x' y'"
  shows "x = x' \<and> y = y'"
proof -
  from assms have xy: "0 \<le> x" "x < width" "0 \<le> y" "0 \<le> x'" "x' < width" "0 \<le> y'"
    by (auto simp: inBounds_def)
  then have "0 \<le> y * width + x" and "0 \<le> y' * width + x'"
    by simp_all
  with assms(3) have eq: "y * width + x = y' * width + x'"
    by (simp add: pix_def)
  have "(y * width + x) div width = y" and "(y * width + x) mod width = x"
    using xy by simp_all
  moreover have "(y' * width + x') div width = y'" and "(y' * width + x') mod width = x'"
    using xy by simp_all
  ultimately show ?thesis
    using eq by simp
qed

lemma pix_surj:
  assumes "i < nat (width * height)" and "0 \<le> width" and "0 \<le> height"
  shows "\<exists>x y. inBounds width height x y \<and> pix width x y = i"
proof -
  from assms have wpos: "0 < width"
    by (cases "width = 0") auto
  let ?x = "int i mod width" and ?y = "int i div width"
  have lt: "int i < width * height"
    using assms by linarith
  have "0 \<le> ?x" "?x < width" "0 \<le> ?y"
    using wpos by (simp_all add: pos_imp_zdiv_nonneg_iff)
  moreover have "?y < height"
  proof (rule ccontr)
    assume "\<not> ?y < height"
    then have "width * height \<le> width * ?y"
      using wpos by (intro mult_left_mono) auto
    also have "width * ?y \<le> int i"
      using \<open>0 \<le> ?x\<close> mult_div_mod_eq [of width "int i"] by linarith
    finally show False
      using lt by simp
  qed
  moreover have "?y * width + ?x = int i"
    by simp
  ultimately show ?thesis
    unfolding inBounds_def pix_def by (intro exI [of _ ?x] exI [of _ ?y]) simp
qed


text \<open>The colour test of lines 74-77 for the pixel at position \<open>i\<close>, proposed with
  \<open>neighborColor\<close>.\<close>

definition accepts :: "Config \<Rightarrow> nat \<Rightarrow> Color \<Rightarrow> 'a Store_scheme \<Rightarrow> nat \<Rightarrow> bool" where
  "accepts cfg startColor neighborColor s i \<longleftrightarrow>
     colorDifference (image_buf s ! i)
       (if adj cfg then neighborColor else image_buf s ! startColor) (euclidif cfg) \<le> k cfg"

section \<open>One iteration of the flood fill\<close>

lemma floodFillStep_outside:
  assumes "\<not> inBounds width height x y"
  shows "floodFillStep cfg width height startColor newColor (x, y, c) rest s = Some (rest, s)"
  using assms by (auto simp: floodFillStep_def inBounds_def)

lemma floodFillStep_seen:
  assumes "inBounds width height x y" and "pix width x y < length (visited s)"
    and "visited s ! pix width x y"
  shows "floodFillStep cfg width height startColor newColor (x, y, c) rest s = Some (rest, s)"
proof -
  from assms(1) have "\<not> (x < 0 \<or> width \<le> x \<or> y < 0 \<or> height \<le> y)"
    by (auto simp: inBounds_def)
  with assms(2,3) show ?thesis
    by (simp add: floodFillStep_def pix_def Let_def)
qed

lemma floodFillStep_visit:
  assumes "inBounds width height x y"
    and "pix width x y < length (visited s)"
    and "pix width x y < length (bigMask s)"
    and "pix width x y < length (image_buf s)"
    and "adj cfg \<or> startColor < length (image_buf s)"
    and "\<not> visited s ! pix width x y"
  shows "floodFillStep cfg width height startColor newColor (x, y, c) rest s =
          Some (if accepts cfg startColor c s (pix width x y)
                then rev (pushed (use8Way cfg) x y (image_buf s ! pix width x y)) @ rest
                else rest,
                s\<lparr>currentComponentXmin := min (currentComponentXmin s) x,
                   currentComponentXmax := max (currentComponentXmax s) x,
                   currentComponentYmin := min (currentComponentYmin s) y,
                   currentComponentYmax := max (currentComponentYmax s) y,
                   currentComponentSize := currentComponentSize s + 1,
                   visited := (visited s)[pix width x y := True],
                   bigMask := (bigMask s)[pix width x y := True],
                   image_buf := (if accepts cfg startColor c s (pix width x y)
                                 then (image_buf s)[pix width x y := newColor]
                                 else image_buf s)\<rparr>)"
proof -
  from assms(1) have "\<not> (x < 0 \<or> width \<le> x \<or> y < 0 \<or> height \<le> y)"
    by (auto simp: inBounds_def)
  moreover from assms(5) have "\<not> adj cfg \<longrightarrow> \<not> length (image_buf s) \<le> startColor"
    by auto
  ultimately show ?thesis
    using assms(2,3,4,6)
    by (simp add: floodFillStep_def pix_def accepts_def Let_def)
qed

lemma floodFillStep_cases [consumes 1, case_names skip visit]:
  assumes "floodFillStep cfg width height startColor newColor (x, y, c) rest s = Some (stk', s')"
  obtains
    (skip) "stk' = rest" and "s' = s"
      and "\<not> inBounds width height x y \<or> visited s ! pix width x y"
  | (visit) "inBounds width height x y"
      and "pix width x y < length (visited s)"
      and "pix width x y < length (bigMask s)"
      and "pix width x y < length (image_buf s)"
      and "\<not> visited s ! pix width x y"
      and "s' = s\<lparr>currentComponentXmin := min (currentComponentXmin s) x,
                   currentComponentXmax := max (currentComponentXmax s) x,
                   currentComponentYmin := min (currentComponentYmin s) y,
                   currentComponentYmax := max (currentComponentYmax s) y,
                   currentComponentSize := currentComponentSize s + 1,
                   visited := (visited s)[pix width x y := True],
                   bigMask := (bigMask s)[pix width x y := True],
                   image_buf := (if accepts cfg startColor c s (pix width x y)
                                 then (image_buf s)[pix width x y := newColor]
                                 else image_buf s)\<rparr>"
      and "stk' = (if accepts cfg startColor c s (pix width x y)
                   then rev (pushed (use8Way cfg) x y (image_buf s ! pix width x y)) @ rest
                   else rest)"
proof (cases "inBounds width height x y")
  case False
  with assms have "stk' = rest \<and> s' = s"
    by (simp add: floodFillStep_outside)
  with False show ?thesis
    by (intro skip) auto
next
  case True
  then have ib: "\<not> (x < 0 \<or> width \<le> x \<or> y < 0 \<or> height \<le> y)"
    by (auto simp: inBounds_def)
  let ?i = "pix width x y"
  from assms ib have len: "?i < length (visited s)"
    by (simp add: floodFillStep_def pix_def Let_def split: if_splits)
  show ?thesis
  proof (cases "visited s ! ?i")
    case True
    with assms \<open>inBounds width height x y\<close> len have "stk' = rest \<and> s' = s"
      by (simp add: floodFillStep_seen)
    with True show ?thesis
      by (intro skip) auto
  next
    case False
    with assms ib len have len2: "?i < length (bigMask s)" "?i < length (image_buf s)"
      by (simp_all add: floodFillStep_def pix_def Let_def split: if_splits)
    from assms ib len False have ok: "adj cfg \<or> startColor < length (image_buf s)"
      by (simp add: floodFillStep_def pix_def Let_def split: if_splits)
    from assms show ?thesis
      unfolding floodFillStep_visit [OF True len len2 ok False]
      by (intro visit [OF True len len2 False]) simp_all
  qed
qed

lemma wellFormed_visit:
  assumes "wellFormed width height s"
  shows "wellFormed width height
           (s\<lparr>currentComponentXmin := a1, currentComponentXmax := a2,
              currentComponentYmin := a3, currentComponentYmax := a4,
              currentComponentSize := a5,
              visited := (visited s)[i := True], bigMask := (bigMask s)[i := True],
              image_buf := (if c then (image_buf s)[i := newColor] else image_buf s)\<rparr>)"
  using assms by (simp add: wellFormed_def)

lemma floodFillStep_Some:
  assumes "wellFormed width height s" and "startColor < nat (width * height)"
  shows "\<exists>stk' s'. floodFillStep cfg width height startColor newColor e rest s = Some (stk', s')
           \<and> wellFormed width height s'"
proof -
  obtain x y c where e: "e = (x, y, c)"
    by (cases e) auto
  show ?thesis
  proof (cases "inBounds width height x y")
    case False
    then show ?thesis
      using assms(1) by (simp add: e floodFillStep_outside)
  next
    case True
    from assms(1) pix_less [OF True] have len: "pix width x y < length (visited s)"
      "pix width x y < length (bigMask s)" "pix width x y < length (image_buf s)"
      by (simp_all add: wellFormed_def)
    from assms have sc: "adj cfg \<or> startColor < length (image_buf s)"
      by (simp add: wellFormed_def)
    show ?thesis
    proof (cases "visited s ! pix width x y")
      case True
      with \<open>inBounds width height x y\<close> len assms(1) show ?thesis
        by (simp add: e floodFillStep_seen)
    next
      case False
      show ?thesis
        unfolding e floodFillStep_visit [OF True len sc False]
        using wellFormed_visit [OF assms(1)] by blast
    qed
  qed
qed

lemma floodFillLoop_rule:
  assumes "floodFillLoop cfg width height startColor newColor stk s = Some s'"
    and "I stk s"
    and "\<And>e rest t stk' t'. I (e # rest) t \<Longrightarrow>
           floodFillStep cfg width height startColor newColor e rest t = Some (stk', t') \<Longrightarrow>
           I stk' t'"
  shows "I [] s'"
  using assms
proof (induction cfg width height startColor newColor stk s rule: floodFillLoop.induct)
  case (1 cfg width height startColor newColor stk s)
  note step = "1.prems"(3)
  show ?case
  proof (cases stk)
    case Nil
    with "1.prems" show ?thesis
      by simp
  next
    case (Cons e rest)
    with "1.prems"(1) obtain stk' t' where
      st: "floodFillStep cfg width height startColor newColor e rest s = Some (stk', t')"
      and lp: "floodFillLoop cfg width height startColor newColor stk' t' = Some s'"
      by (auto split: option.splits)
    from "1.prems"(2) Cons st have "I stk' t'"
      by (auto intro: step)
    with "1.IH" [OF Cons st refl lp] step show ?thesis
      by blast
  qed
qed

lemma floodFillLoop_Some:
  assumes "wellFormed width height s" and "startColor < nat (width * height)"
  shows "\<exists>s'. floodFillLoop cfg width height startColor newColor stk s = Some s'"
  using assms
proof (induction cfg width height startColor newColor stk s rule: floodFillLoop.induct)
  case (1 cfg width height startColor newColor stk s)
  show ?case
  proof (cases stk)
    case Nil
    then show ?thesis
      by simp
  next
    case (Cons e rest)
    from floodFillStep_Some [OF "1.prems", of cfg newColor e rest] obtain stk' t' where
      st: "floodFillStep cfg width height startColor newColor e rest s = Some (stk', t')"
      and wf: "wellFormed width height t'"
      by blast
    from "1.IH" [OF Cons st refl wf "1.prems"(2)] obtain s' where
      "floodFillLoop cfg width height startColor newColor stk' t' = Some s'"
      by blast
    with st Cons show ?thesis
      by simp
  qed
qed


lemma filter_Not_update_Suc:
  "i < length xs \<Longrightarrow> \<not> xs ! i \<Longrightarrow>
     Suc (length (filter Not (xs[i := True]))) = length (filter Not xs)"
proof (induction xs arbitrary: i)
  case Nil
  then show ?case by simp
next
  case (Cons x xs)
  then show ?case by (cases i) auto
qed

lemma length_pushed: "length (pushed eightWay x y c) \<le> 8"
  by (simp add: pushed_def)

lemma floodFillStep_progress:
  assumes "floodFillStep cfg width height startColor newColor e rest s = Some (stk', s')"
  shows "(stk' = rest \<and> s' = s) \<or>
         (Suc (unvisited s') = unvisited s \<and> length stk' \<le> length rest + 8)"
proof -
  obtain x y c where e: "e = (x, y, c)"
    by (cases e) auto
  from assms [unfolded e] show ?thesis
  proof (cases rule: floodFillStep_cases)
    case skip
    then show ?thesis by simp
  next
    case visit
    from visit(2,5) have "Suc (unvisited s') = unvisited s"
      by (simp add: visit(6) unvisited_def filter_Not_update_Suc)
    moreover have "length stk' \<le> length rest + 8"
      using length_pushed [of "use8Way cfg" x y "image_buf s ! pix width x y"]
      by (simp add: visit(7))
    ultimately show ?thesis by simp
  qed
qed

section \<open>Termination of the flood fill\<close>

text \<open>
  C10. The flood fill terminates: \<open>floodFillLoop\<close> is a total function (its termination
  proof orders the states by the number of unvisited pixels and then by the height of the
  stack), and on a store whose vectors have one entry per pixel the call returns (the loop
  ends only on the empty stack). Every iteration either only drops the popped entry,
  leaving the store as it was, or turns exactly one unvisited pixel into a visited one and
  pushes at most eight entries.
\<close>

theorem floodFillIterative_terminates:
  assumes "wellFormed width height s" and "startColor < nat (width * height)"
  shows "(\<exists>s'. floodFillIterative cfg startX startY width height startColor newColor s = Some s')
       \<and> (\<forall>e rest t stk' t'.
            floodFillStep cfg width height startColor newColor e rest (t :: 'a Store_scheme)
              = Some (stk', t') \<longrightarrow>
            (stk' = rest \<and> t' = t) \<or>
            (Suc (unvisited t') = unvisited t \<and> length stk' \<le> length rest + 8))"
proof (intro conjI allI impI)
  from assms have "startColor < length (image_buf s)"
    by (simp add: wellFormed_def)
  then show "\<exists>s'. floodFillIterative cfg startX startY width height startColor newColor s = Some s'"
    using floodFillLoop_Some [OF assms] by (simp add: floodFillIterative_def del: floodFillLoop_Cons)
next
  fix e rest stk' and t t' :: "'a Store_scheme"
  assume "floodFillStep cfg width height startColor newColor e rest t = Some (stk', t')"
  then show "(stk' = rest \<and> t' = t) \<or>
             (Suc (unvisited t') = unvisited t \<and> length stk' \<le> length rest + 8)"
    by (rule floodFillStep_progress)
qed

theorem floodFillIterative_terminates_witness:
  "wellFormed 2 1 (freshStore twoPixels) \<and> (0 :: nat) < nat (2 * 1) \<and>
   (\<exists>s'. floodFillIterative (exampleConfig 5 True) 0 0 2 1 0 (rgb 200 200 200)
           (freshStore twoPixels) = Some s') \<and>
   (\<exists>stk' t'. floodFillStep (exampleConfig 5 True) 2 1 0 (rgb 200 200 200)
                (0, 0, rgb 10 10 10) [] (freshStore twoPixels) = Some (stk', t') \<and>
              Suc (unvisited t') = unvisited (freshStore twoPixels) \<and> length stk' \<le> 0 + 8)"
proof -
  have wf: "wellFormed 2 1 (freshStore twoPixels)"
    by (simp add: wellFormed_def freshStore_def twoPixels_def)
  have sc: "(0 :: nat) < nat (2 * 1)"
    by simp
  obtain stk' t' where
    st: "floodFillStep (exampleConfig 5 True) 2 1 0 (rgb 200 200 200)
           (0, 0, rgb 10 10 10) [] (freshStore twoPixels) = Some (stk', t')"
    using floodFillStep_Some [OF wf sc] by blast
  have ne: "\<not> (stk' = [] \<and> t' = freshStore twoPixels)"
    using st
    by (auto simp: floodFillStep_def freshStore_def twoPixels_def exampleConfig_def rgb_def
          colorDifference_def pushed_def Let_def)
  note inst = floodFillIterative_terminates
    [OF wf sc, of "exampleConfig 5 True" 0 0 "rgb 200 200 200"]
  from inst have ret: "\<exists>s'. floodFillIterative (exampleConfig 5 True) 0 0 2 1 0 (rgb 200 200 200)
                          (freshStore twoPixels) = Some s'"
    by (rule conjunct1)
  from conjunct2 [OF inst, rule_format, OF st] ne
  have "Suc (unvisited t') = unvisited (freshStore twoPixels) \<and> length stk' \<le> 0 + 8"
    by simp
  with wf sc ret st show ?thesis
    by blast
qed

section \<open>Invariants of a flood fill\<close>

text \<open>The pixels marked in a vector of flags.\<close>

definition cellsOf :: "int \<Rightarrow> int \<Rightarrow> bool list \<Rightarrow> (int \<times> int) set" where
  "cellsOf width height xs = {(x, y). inBounds width height x y \<and> xs ! pix width x y}"

lemma finite_inBounds: "finite {(x, y). inBounds width height x y}"
proof -
  have "{(x, y). inBounds width height x y} \<subseteq> {0..<width} \<times> {0..<height}"
    by (auto simp: inBounds_def)
  then show ?thesis
    by (rule finite_subset) simp
qed

lemma finite_cellsOf [simp]: "finite (cellsOf width height xs)"
  by (rule finite_subset [OF _ finite_inBounds [of width height]]) (auto simp: cellsOf_def)

lemma cellsOf_update_True:
  assumes "inBounds width height x y" and "pix width x y < length xs"
  shows "cellsOf width height (xs[pix width x y := True]) = insert (x, y) (cellsOf width height xs)"
proof -
  have "xs[pix width x y := True] ! pix width x' y' \<longleftrightarrow> (x', y') = (x, y) \<or> xs ! pix width x' y'"
    if "inBounds width height x' y'" for x' y'
    using pix_inj [OF that assms(1)] assms(2) by (auto simp: nth_list_update)
  with assms(1) show ?thesis
    by (auto simp: cellsOf_def)
qed

text \<open>The relation between the store \<open>s0\<close> in which a flood fill starts and any store \<open>t\<close>
  it reaches: the visited flags only grow; the scratch mask, the size counter and the four
  bounds record exactly the pixels visited since \<open>s0\<close>; nothing else of the state changes.\<close>

definition fillInv :: "int \<Rightarrow> int \<Rightarrow> 'a Store_scheme \<Rightarrow> 'a Store_scheme \<Rightarrow> bool" where
  "fillInv width height s0 t \<longleftrightarrow>
     wellFormed width height t \<and>
     cellsOf width height (visited s0) \<subseteq> cellsOf width height (visited t) \<and>
     cellsOf width height (bigMask t) =
       cellsOf width height (bigMask s0) \<union>
       (cellsOf width height (visited t) - cellsOf width height (visited s0)) \<and>
     currentComponentSize t =
       currentComponentSize s0 +
       int (card (cellsOf width height (visited t) - cellsOf width height (visited s0))) \<and>
     currentComponentXmin t =
       Min (insert (currentComponentXmin s0)
              (fst ` (cellsOf width height (visited t) - cellsOf width height (visited s0)))) \<and>
     currentComponentXmax t =
       Max (insert (currentComponentXmax s0)
              (fst ` (cellsOf width height (visited t) - cellsOf width height (visited s0)))) \<and>
     currentComponentYmin t =
       Min (insert (currentComponentYmin s0)
              (snd ` (cellsOf width height (visited t) - cellsOf width height (visited s0)))) \<and>
     currentComponentYmax t =
       Max (insert (currentComponentYmax s0)
              (snd ` (cellsOf width height (visited t) - cellsOf width height (visited s0)))) \<and>
     Store.more t = Store.more s0"

lemma fillInv_refl: "wellFormed width height s \<Longrightarrow> fillInv width height s s"
  by (simp add: fillInv_def)

lemma Min_insert_insert:
  assumes "finite A"
  shows "Min (insert a (insert x A)) = min (Min (insert a A)) (x :: int)"
proof -
  have "insert a (insert x A) = insert x (insert a A)"
    by auto
  then show ?thesis
    using assms by (simp add: min.commute)
qed

lemma Max_insert_insert:
  assumes "finite A"
  shows "Max (insert a (insert x A)) = max (Max (insert a A)) (x :: int)"
proof -
  have "insert a (insert x A) = insert x (insert a A)"
    by auto
  then show ?thesis
    using assms by (simp add: max.commute)
qed

lemma fillInv_step:
  assumes inv: "fillInv width height s0 t"
    and step: "floodFillStep cfg width height startColor newColor e rest t = Some (stk', t')"
  shows "fillInv width height s0 t'"
proof -
  obtain x y c where e: "e = (x, y, c)"
    by (cases e) auto
  from step [unfolded e] show ?thesis
  proof (cases rule: floodFillStep_cases)
    case skip
    with inv show ?thesis by simp
  next
    case visit
    let ?p = "pix width x y"
    define V where "V = cellsOf width height (visited t) - cellsOf width height (visited s0)"
    define V' where "V' = cellsOf width height (visited t') - cellsOf width height (visited s0)"
    from visit(6) have sel: "visited t' = (visited t)[?p := True]"
      "bigMask t' = (bigMask t)[?p := True]"
      "currentComponentXmin t' = min (currentComponentXmin t) x"
      "currentComponentXmax t' = max (currentComponentXmax t) x"
      "currentComponentYmin t' = min (currentComponentYmin t) y"
      "currentComponentYmax t' = max (currentComponentYmax t) y"
      "currentComponentSize t' = currentComponentSize t + 1"
      "Store.more t' = Store.more t"
      "length (image_buf t') = length (image_buf t)"
      by simp_all
    from inv have wf: "wellFormed width height t"
      and sub: "cellsOf width height (visited s0) \<subseteq> cellsOf width height (visited t)"
      by (simp_all add: fillInv_def)
    from inv have ix:
      "currentComponentXmin t = Min (insert (currentComponentXmin s0) (fst ` V))"
      "currentComponentXmax t = Max (insert (currentComponentXmax s0) (fst ` V))"
      "currentComponentYmin t = Min (insert (currentComponentYmin s0) (snd ` V))"
      "currentComponentYmax t = Max (insert (currentComponentYmax s0) (snd ` V))"
      by (simp_all add: fillInv_def V_def)
    have new: "(x, y) \<notin> cellsOf width height (visited t)"
      using visit(5) by (simp add: cellsOf_def)
    have vis': "cellsOf width height (visited t') = insert (x, y) (cellsOf width height (visited t))"
      by (simp add: sel cellsOf_update_True visit)
    have mask': "cellsOf width height (bigMask t') = insert (x, y) (cellsOf width height (bigMask t))"
      by (simp add: sel cellsOf_update_True visit)
    have V': "V' = insert (x, y) V" and notin: "(x, y) \<notin> V"
      using new sub by (auto simp: V'_def V_def vis')
    have finV: "finite V"
      by (simp add: V_def)
    have "wellFormed width height t'"
      using wf by (simp add: wellFormed_def sel)
    moreover have "cellsOf width height (visited s0) \<subseteq> cellsOf width height (visited t')"
      using sub by (auto simp: vis')
    moreover have "cellsOf width height (bigMask t') = cellsOf width height (bigMask s0) \<union> V'"
      using inv by (simp add: mask' V' fillInv_def V_def)
    moreover have "currentComponentSize t' = currentComponentSize s0 + int (card V')"
      using inv finV notin by (simp add: sel V' fillInv_def V_def)
    moreover have "currentComponentXmin t' = Min (insert (currentComponentXmin s0) (fst ` V'))"
      unfolding sel ix V' image_insert
      by (simp only: fst_conv Min_insert_insert [OF finite_imageI [OF finV]])
    moreover have "currentComponentXmax t' = Max (insert (currentComponentXmax s0) (fst ` V'))"
      unfolding sel ix V' image_insert
      by (simp only: fst_conv Max_insert_insert [OF finite_imageI [OF finV]])
    moreover have "currentComponentYmin t' = Min (insert (currentComponentYmin s0) (snd ` V'))"
      unfolding sel ix V' image_insert
      by (simp only: snd_conv Min_insert_insert [OF finite_imageI [OF finV]])
    moreover have "currentComponentYmax t' = Max (insert (currentComponentYmax s0) (snd ` V'))"
      unfolding sel ix V' image_insert
      by (simp only: snd_conv Max_insert_insert [OF finite_imageI [OF finV]])
    moreover have "Store.more t' = Store.more s0"
      using inv by (simp add: sel fillInv_def)
    ultimately show ?thesis
      unfolding fillInv_def V'_def by blast
  qed
qed


lemma floodFillLoop_fillInv:
  assumes "floodFillLoop cfg width height startColor newColor stk s = Some s'"
    and "wellFormed width height s"
  shows "fillInv width height s s'"
  using assms(1) fillInv_refl [OF assms(2)]
  by (rule floodFillLoop_rule [where I = "\<lambda>stk t. fillInv width height s t"])
     (rule fillInv_step)

lemma floodFillStep_mono:
  assumes "wellFormed width height t"
    and "floodFillStep cfg width height startColor newColor e rest t = Some (stk', t')"
  shows "cellsOf width height (visited t) \<subseteq> cellsOf width height (visited t')"
  using fillInv_step [OF fillInv_refl [OF assms(1)] assms(2)] by (simp add: fillInv_def)

lemma floodFillStep_stack:
  assumes "floodFillStep cfg width height startColor newColor e rest t = Some (stk', t')"
  shows "set rest \<subseteq> set stk'"
proof -
  obtain x y c where e: "e = (x, y, c)"
    by (cases e) auto
  from assms [unfolded e] show ?thesis
    by (cases rule: floodFillStep_cases) auto
qed

lemma floodFillStep_visits_top:
  assumes "floodFillStep cfg width height startColor newColor (x, y, c) rest t = Some (stk', t')"
    and "inBounds width height x y"
  shows "(x, y) \<in> cellsOf width height (visited t')"
  using assms(1)
proof (cases rule: floodFillStep_cases)
  case skip
  with assms(2) show ?thesis
    by (simp add: cellsOf_def)
next
  case visit
  from visit(6) have "visited t' = (visited t)[pix width x y := True]"
    by simp
  with visit(1,2) show ?thesis
    by (simp add: cellsOf_update_True)
qed

lemma floodFillLoop_visits_stack:
  assumes run: "floodFillLoop cfg width height startColor newColor stk s = Some s'"
    and wf: "wellFormed width height s"
    and mem: "(x, y, c) \<in> set stk" and ib: "inBounds width height x y"
  shows "(x, y) \<in> cellsOf width height (visited s')"
proof -
  define I where "I = (\<lambda>(stk :: entry list) (t :: 'a Store_scheme).
     wellFormed width height t \<and>
     ((x, y) \<in> cellsOf width height (visited t) \<or> (\<exists>c. (x, y, c) \<in> set stk)))"
  have "I [] s'"
    using run
  proof (rule floodFillLoop_rule [where I = I])
    show "I stk s"
      using wf mem unfolding I_def by blast
  next
    fix e rest stk' and t t' :: "'a Store_scheme"
    assume "I (e # rest) t"
      and step: "floodFillStep cfg width height startColor newColor e rest t = Some (stk', t')"
    then have I: "wellFormed width height t \<and>
        ((x, y) \<in> cellsOf width height (visited t) \<or> (\<exists>c. (x, y, c) \<in> set (e # rest)))"
      by (simp add: I_def)
    from I have wft: "wellFormed width height t"
      by simp
    have "wellFormed width height t'"
      using fillInv_step [OF fillInv_refl [OF wft] step] by (simp add: fillInv_def)
    moreover have "(x, y) \<in> cellsOf width height (visited t') \<or> (\<exists>c. (x, y, c) \<in> set stk')"
    proof (cases "(x, y) \<in> cellsOf width height (visited t)")
      case True
      with floodFillStep_mono [OF wft step] show ?thesis
        by blast
    next
      case False
      with I obtain c' where c': "(x, y, c') \<in> set (e # rest)"
        by blast
      show ?thesis
      proof (cases "e = (x, y, c')")
        case True
        with step ib show ?thesis
          by (auto dest: floodFillStep_visits_top)
      next
        case False
        with c' have "(x, y, c') \<in> set rest"
          by simp
        with floodFillStep_stack [OF step] show ?thesis
          by blast
      qed
    qed
    ultimately show "I stk' t'"
      by (simp add: I_def)
  qed
  then show ?thesis
    by (simp add: I_def)
qed


lemma cellsOf_inBounds: "(a, c) \<in> cellsOf width height xs \<Longrightarrow> inBounds width height a c"
  by (simp add: cellsOf_def)

text \<open>What a flood fill leaves behind when it is started, with the globals reset as in
  lines 481-485, on an unvisited pixel.\<close>

lemma floodFillIterative_region:
  fixes s1 s2 :: "'a Store_scheme"
  assumes fill: "floodFillIterative cfg x y width height (pix width x y) newColor s1 = Some s2"
    and wf: "wellFormed width height s1"
    and ib: "inBounds width height x y"
    and unv: "(x, y) \<notin> cellsOf width height (visited s1)"
    and reset: "currentComponentXmin s1 = width" "currentComponentXmax s1 = 0"
      "currentComponentYmin s1 = height" "currentComponentYmax s1 = 0"
      "currentComponentSize s1 = 0"
  defines "V \<equiv> cellsOf width height (visited s2) - cellsOf width height (visited s1)"
  shows "wellFormed width height s2"
    and "cellsOf width height (visited s1) \<subseteq> cellsOf width height (visited s2)"
    and "(x, y) \<in> V"
    and "cellsOf width height (bigMask s2) = cellsOf width height (bigMask s1) \<union> V"
    and "currentComponentSize s2 = int (card V)"
    and "currentComponentXmin s2 = Min (fst ` V)"
    and "currentComponentXmax s2 = Max (fst ` V)"
    and "currentComponentYmin s2 = Min (snd ` V)"
    and "currentComponentYmax s2 = Max (snd ` V)"
    and "Store.more s2 = Store.more s1"
proof -
  from wf pix_less [OF ib] have "pix width x y < length (image_buf s1)"
    by (simp add: wellFormed_def)
  with fill have loop: "floodFillLoop cfg width height (pix width x y) newColor
      [(x, y, image_buf s1 ! pix width x y)] s1 = Some s2"
    by (simp add: floodFillIterative_def del: floodFillLoop_Cons)
  from floodFillLoop_fillInv [OF loop wf] have inv: "fillInv width height s1 s2" .
  from floodFillLoop_visits_stack [OF loop wf _ ib] have "(x, y) \<in> cellsOf width height (visited s2)"
    by simp
  with unv show seed: "(x, y) \<in> V"
    by (simp add: V_def)
  have fin: "finite V"
    by (simp add: V_def)
  have inb: "inBounds width height a c" if "(a, c) \<in> V" for a c
    using that by (auto simp: V_def dest: cellsOf_inBounds)
  from inv show "wellFormed width height s2"
    and "cellsOf width height (visited s1) \<subseteq> cellsOf width height (visited s2)"
    and "cellsOf width height (bigMask s2) = cellsOf width height (bigMask s1) \<union> V"
    and "Store.more s2 = Store.more s1"
    by (simp_all add: fillInv_def V_def)
  from inv reset show "currentComponentSize s2 = int (card V)"
    by (simp add: fillInv_def V_def)
  have finx: "finite (fst ` V)" "fst ` V \<noteq> {}" and finy: "finite (snd ` V)" "snd ` V \<noteq> {}"
    using fin seed by auto
  have "Min (fst ` V) \<in> fst ` V" and "Max (fst ` V) \<in> fst ` V"
    and "Min (snd ` V) \<in> snd ` V" and "Max (snd ` V) \<in> snd ` V"
    by (rule Min_in [OF finx] Max_in [OF finx] Min_in [OF finy] Max_in [OF finy])+
  then have bounds: "Min (fst ` V) < width" "0 \<le> Max (fst ` V)"
    "Min (snd ` V) < height" "0 \<le> Max (snd ` V)"
    using inb by (auto simp: inBounds_def)
  from inv reset have "currentComponentXmin s2 = Min (insert width (fst ` V))"
    by (simp add: fillInv_def V_def)
  also have "\<dots> = Min (fst ` V)"
    using bounds(1) by (simp add: Min_insert [OF finx])
  finally show "currentComponentXmin s2 = Min (fst ` V)" .
  from inv reset have "currentComponentXmax s2 = Max (insert 0 (fst ` V))"
    by (simp add: fillInv_def V_def)
  also have "\<dots> = Max (fst ` V)"
    using bounds(2) by (simp add: Max_insert [OF finx])
  finally show "currentComponentXmax s2 = Max (fst ` V)" .
  from inv reset have "currentComponentYmin s2 = Min (insert height (snd ` V))"
    by (simp add: fillInv_def V_def)
  also have "\<dots> = Min (snd ` V)"
    using bounds(3) by (simp add: Min_insert [OF finy])
  finally show "currentComponentYmin s2 = Min (snd ` V)" .
  from inv reset have "currentComponentYmax s2 = Max (insert 0 (snd ` V))"
    by (simp add: fillInv_def V_def)
  also have "\<dots> = Max (snd ` V)"
    using bounds(4) by (simp add: Max_insert [OF finy])
  finally show "currentComponentYmax s2 = Max (snd ` V)" .
qed

lemma card_box_bound:
  fixes V :: "(int \<times> int) set"
  assumes "finite V" and "V \<noteq> {}"
  shows "int (card V) \<le> (Max (fst ` V) - Min (fst ` V) + 1) * (Max (snd ` V) - Min (snd ` V) + 1)"
proof -
  let ?x0 = "Min (fst ` V)" and ?x1 = "Max (fst ` V)"
  let ?y0 = "Min (snd ` V)" and ?y1 = "Max (snd ` V)"
  have sub: "V \<subseteq> {?x0..?x1} \<times> {?y0..?y1}"
  proof
    fix p assume "p \<in> V"
    then have "fst p \<in> fst ` V" and "snd p \<in> snd ` V"
      by simp_all
    with assms(1) have "?x0 \<le> fst p" "fst p \<le> ?x1" "?y0 \<le> snd p" "snd p \<le> ?y1"
      by simp_all
    then show "p \<in> {?x0..?x1} \<times> {?y0..?y1}"
      by (cases p) simp
  qed
  from assms have "?x0 \<le> ?x1" and "?y0 \<le> ?y1"
    by (simp_all add: Min_le_iff)
  from card_mono [OF _ sub] have "card V \<le> card ({?x0..?x1} \<times> {?y0..?y1})"
    by simp
  also have "\<dots> = nat (?x1 - ?x0 + 1) * nat (?y1 - ?y0 + 1)"
    by (simp add: card_cartesian_product)
  finally have "int (card V) \<le> int (nat (?x1 - ?x0 + 1) * nat (?y1 - ?y0 + 1))"
    by (simp only: of_nat_le_iff)
  also have "\<dots> = int (nat (?x1 - ?x0 + 1)) * int (nat (?y1 - ?y0 + 1))"
    by (simp only: of_nat_mult)
  also have "\<dots> = (?x1 - ?x0 + 1) * (?y1 - ?y0 + 1)"
    using \<open>?x0 \<le> ?x1\<close> \<open>?y0 \<le> ?y1\<close> by simp
  finally show ?thesis .
qed


section \<open>The loops over the bounding box\<close>

lemma set_columnMajor [simp]: "set (columnMajor x0 x1 y0 y1) = {x0..x1} \<times> {y0..y1}"
  by (auto simp: columnMajor_def)

lemma set_rowMajor [simp]: "set (rowMajor x0 x1 y0 y1) = {x0..x1} \<times> {y0..y1}"
  by (auto simp: rowMajor_def)

lemma distinct_rows:
  assumes "distinct xs" and "distinct ys"
  shows "distinct (concat (map (\<lambda>cy. map (\<lambda>cx. (cx, cy)) xs) ys))"
  using assms(2)
proof (induction ys)
  case Nil
  then show ?case by simp
next
  case (Cons a ys)
  have "distinct (map (\<lambda>cx. (cx, a)) xs)"
    using assms(1) by (simp add: distinct_map inj_on_def)
  moreover have "set (map (\<lambda>cx. (cx, a)) xs) \<inter> set (concat (map (\<lambda>cy. map (\<lambda>cx. (cx, cy)) xs) ys)) = {}"
    using Cons.prems by auto
  ultimately show ?case
    using Cons by simp
qed

lemma distinct_rowMajor [simp]: "distinct (rowMajor x0 x1 y0 y1)"
  unfolding rowMajor_def by (rule distinct_rows) simp_all

lemma cellIndex_inBounds:
  assumes "inBounds width height cx cy" and "length xs = nat (width * height)"
  shows "cellIndex width xs cx cy = Some (pix width cx cy)"
proof -
  from assms(1) have "0 \<le> cy * width + cx"
    by (simp add: inBounds_def)
  moreover from pix_less [OF assms(1)] assms(2) have "nat (cy * width + cx) < length xs"
    by (simp add: pix_def)
  ultimately show ?thesis
    by (simp add: cellIndex_def pix_def Let_def)
qed

lemma cellsOf_update_False:
  assumes "inBounds width height x y" and "pix width x y < length xs"
  shows "cellsOf width height (xs[pix width x y := False]) = cellsOf width height xs - {(x, y)}"
proof -
  have "xs[pix width x y := False] ! pix width x' y' \<longleftrightarrow> (x', y') \<noteq> (x, y) \<and> xs ! pix width x' y'"
    if "inBounds width height x' y'" for x' y'
    using pix_inj [OF that assms(1)] assms(2) by (auto simp: nth_list_update)
  then show ?thesis
    by (auto simp: cellsOf_def)
qed

lemma clearCells_result:
  assumes "\<And>cx cy. (cx, cy) \<in> set cells \<Longrightarrow> inBounds width height cx cy"
    and "length m = nat (width * height)"
  shows "\<exists>m'. clearCells width cells m = Some m' \<and> length m' = length m \<and>
           cellsOf width height m' = cellsOf width height m - set cells"
  using assms
proof (induction cells arbitrary: m)
  case Nil
  then show ?case by simp
next
  case (Cons p cells)
  obtain cx cy where p: "p = (cx, cy)"
    by (cases p) auto
  have ib: "inBounds width height cx cy"
    using Cons.prems(1) [of cx cy] by (simp add: p)
  have len: "pix width cx cy < length m"
    using pix_less [OF ib] Cons.prems(2) by simp
  let ?m = "m[pix width cx cy := False]"
  from Cons.IH [of ?m] Cons.prems obtain m' where
    m': "clearCells width cells ?m = Some m'" "length m' = length ?m"
      "cellsOf width height m' = cellsOf width height ?m - set cells"
    by auto
  have "clearCells width (p # cells) m = Some m'"
    by (simp add: p cellIndex_inBounds [OF ib Cons.prems(2)] m'(1))
  moreover have "cellsOf width height m' = cellsOf width height m - set (p # cells)"
    unfolding m'(3) cellsOf_update_False [OF ib len] by (auto simp: p)
  ultimately show ?case
    using m'(2) by simp
qed

text \<open>The cells of a list under the scratch mask, and what the extraction loop adds up
  over them.\<close>

definition masked :: "int \<Rightarrow> bool list \<Rightarrow> (int \<times> int) list \<Rightarrow> (int \<times> int) list" where
  "masked width bigM cells = filter (\<lambda>(cx, cy). bigM ! pix width cx cy) cells"

definition maskedValues :: "int \<Rightarrow> real list \<Rightarrow> bool list \<Rightarrow> (int \<times> int) list \<Rightarrow> real list" where
  "maskedValues width heatmap bigM cells =
     map (\<lambda>(cx, cy). heatmap ! pix width cx cy) (masked width bigM cells)"

lemma extractCells_result:
  assumes "\<And>cx cy. (cx, cy) \<in> set cells \<Longrightarrow>
             inBounds width height cx cy \<and> inBounds compWidth compHeight (cx - x0) (cy - y0)"
    and "length bigM = nat (width * height)"
    and "length heatmap = nat (width * height)"
    and "length msk = nat (compWidth * compHeight)"
  shows "\<exists>msk'. extractCells width heatmap bigM x0 y0 compWidth cells (msk, tot, cnt) =
             Some (msk',
                   foldl float_add tot (maskedValues width heatmap bigM cells),
                   cnt + int (length (masked width bigM cells))) \<and>
           length msk' = length msk \<and>
           cellsOf compWidth compHeight msk' =
             cellsOf compWidth compHeight msk \<union>
             (\<lambda>(cx, cy). (cx - x0, cy - y0)) ` set (masked width bigM cells)"
  using assms
proof (induction cells arbitrary: msk tot cnt)
  case Nil
  then show ?case by (simp add: masked_def maskedValues_def)
next
  case (Cons p cells)
  obtain cx cy where p: "p = (cx, cy)"
    by (cases p) auto
  have ib: "inBounds width height cx cy"
    and ibl: "inBounds compWidth compHeight (cx - x0) (cy - y0)"
    using Cons.prems(1) [of cx cy] by (simp_all add: p)
  note idx = cellIndex_inBounds [OF ib Cons.prems(2)]
  have rest: "\<And>cx cy. (cx, cy) \<in> set cells \<Longrightarrow>
             inBounds width height cx cy \<and> inBounds compWidth compHeight (cx - x0) (cy - y0)"
    using Cons.prems(1) by simp
  show ?case
  proof (cases "bigM ! pix width cx cy")
    case False
    from Cons.IH [OF rest Cons.prems(2,3,4), of tot cnt] obtain msk' where
      "extractCells width heatmap bigM x0 y0 compWidth cells (msk, tot, cnt) =
         Some (msk',
               foldl float_add tot (maskedValues width heatmap bigM cells),
               cnt + int (length (masked width bigM cells)))"
      "length msk' = length msk"
      "cellsOf compWidth compHeight msk' =
         cellsOf compWidth compHeight msk \<union>
         (\<lambda>(cx, cy). (cx - x0, cy - y0)) ` set (masked width bigM cells)"
      by blast
    with False show ?thesis
      by (simp add: p idx masked_def maskedValues_def)
  next
    case True
    let ?l = "pix compWidth (cx - x0) (cy - y0)"
    have l0: "0 \<le> (cy - y0) * compWidth + (cx - x0)"
      using ibl by (simp add: inBounds_def)
    have ll: "?l < length msk"
      using pix_less [OF ibl] Cons.prems(4) by simp
    have lh: "pix width cx cy < length heatmap"
      using pix_less [OF ib] Cons.prems(3) by simp
    let ?msk = "msk[?l := True]"
    have "length ?msk = nat (compWidth * compHeight)"
      using Cons.prems(4) by simp
    from Cons.IH [OF rest Cons.prems(2,3) this, of "float_add tot (heatmap ! pix width cx cy)" "cnt + 1"]
    obtain msk' where
      ih: "extractCells width heatmap bigM x0 y0 compWidth cells
             (?msk, float_add tot (heatmap ! pix width cx cy), cnt + 1) =
         Some (msk',
               foldl float_add (float_add tot (heatmap ! pix width cx cy))
                 (maskedValues width heatmap bigM cells),
               cnt + 1 + int (length (masked width bigM cells)))"
      "length msk' = length ?msk"
      "cellsOf compWidth compHeight msk' =
         cellsOf compWidth compHeight ?msk \<union>
         (\<lambda>(cx, cy). (cx - x0, cy - y0)) ` set (masked width bigM cells)"
      by blast
    have step: "extractCells width heatmap bigM x0 y0 compWidth (p # cells) (msk, tot, cnt) =
        extractCells width heatmap bigM x0 y0 compWidth cells
             (?msk, float_add tot (heatmap ! pix width cx cy), cnt + 1)"
      using True l0 ll lh by (simp add: p idx pix_def Let_def)
    have m: "masked width bigM (p # cells) = (cx, cy) # masked width bigM cells"
      using True by (simp add: masked_def p)
    have mv: "maskedValues width heatmap bigM (p # cells) =
        heatmap ! pix width cx cy # maskedValues width heatmap bigM cells"
      by (simp add: maskedValues_def m)
    show ?thesis
      unfolding step ih(1) m mv
      using ih(2,3) by (simp add: cellsOf_update_True [OF ibl ll] algebra_simps)
  qed
qed

section \<open>Heatmap validation\<close>

lemma readHeatmap_fails_iff:
  "isl (readHeatmap width height hfile) \<longleftrightarrow>
     (case hfile of None \<Rightarrow> True | Some bytes \<Rightarrow> length bytes < 4 * nat (width * height))"
  by (cases hfile) (auto simp: readHeatmap_def Let_def)

lemma decodeFloats_take:
  "decodeFloats floatOf (take (4 * n) bytes) = take n (decodeFloats floatOf bytes)"
proof (induction floatOf bytes arbitrary: n rule: decodeFloats.induct)
  case (1 floatOf a b c d rest)
  show ?case
  proof (cases n)
    case 0
    then show ?thesis by simp
  next
    case (Suc m)
    then have "4 * n = Suc (Suc (Suc (Suc (4 * m))))"
      by simp
    then have "take (4 * n) (a # b # c # d # rest) = a # b # c # d # take (4 * m) rest"
      by (simp only: take_Suc_Cons)
    with 1 [of m] Suc show ?thesis
      by simp
  qed
qed (simp_all add: take_Cons')

text \<open>
  C9, as the code has it. With the image decoded, \<^verbatim>\<open>processImage\<close> returns early because of
  the heatmap exactly when the heatmap file cannot be opened or holds fewer than
  \<open>4 * width * height\<close> bytes. A file that holds at least that many bytes is accepted, and
  the run is the one on the first \<open>width * height\<close> floats of the file: what follows them
  has no effect.
\<close>

theorem heatmap_rejected_iff_too_short:
  "((\<exists>e. processImage floatOf (Some (width, height, img)) hfile gen cfg = Some (Inl e)) \<longleftrightarrow>
      (case hfile of None \<Rightarrow> True | Some bytes \<Rightarrow> length bytes < 4 * nat (width * height))) \<and>
   (\<forall>bytes. hfile = Some bytes \<and> 4 * nat (width * height) \<le> length bytes \<longrightarrow>
      processImage floatOf (Some (width, height, img)) hfile gen cfg =
        map_option Inr
          (processImage_run cfg width height img
             (take (nat (width * height)) (decodeFloats floatOf bytes)) gen))"
proof -
  have accepted: "processImage floatOf (Some (width, height, img)) (Some bytes) gen cfg =
      map_option Inr
        (processImage_run cfg width height img
           (take (nat (width * height)) (decodeFloats floatOf bytes)) gen)"
    if "4 * nat (width * height) \<le> length bytes" for bytes
    using that
    by (simp add: processImage_def readHeatmap_def Let_def mult.commute [of _ 4]
        decodeFloats_take)
  have iff: "(\<exists>e. processImage floatOf (Some (width, height, img)) hfile gen cfg = Some (Inl e)) \<longleftrightarrow>
      (case hfile of None \<Rightarrow> True | Some bytes \<Rightarrow> length bytes < 4 * nat (width * height))"
  proof (cases "readHeatmap width height hfile")
    case (Inl e)
    then have "processImage floatOf (Some (width, height, img)) hfile gen cfg = Some (Inl e)"
      by (simp add: processImage_def)
    moreover from Inl have "isl (readHeatmap width height hfile)"
      by simp
    ultimately show ?thesis
      unfolding readHeatmap_fails_iff [symmetric] by blast
  next
    case (Inr bytes)
    then have "\<nexists>e. processImage floatOf (Some (width, height, img)) hfile gen cfg = Some (Inl e)"
      by (auto simp: processImage_def)
    moreover from Inr have "\<not> isl (readHeatmap width height hfile)"
      by simp
    ultimately show ?thesis
      unfolding readHeatmap_fails_iff [symmetric] by blast
  qed
  from accepted iff show ?thesis
    by blast
qed

theorem heatmap_rejected_iff_too_short_witness:
  "(\<exists>e. processImage (\<lambda>bytes. real (unat (hd bytes))) (Some (1, 1, [rgb 10 10 10]))
          (Some [1, 0]) (\<lambda>n. 200) (exampleConfig 5 True) = Some (Inl e)) \<and>
   (\<exists>res. processImage (\<lambda>bytes. real (unat (hd bytes))) (Some (1, 1, [rgb 10 10 10]))
          (Some [1, 0, 0, 0, 9, 0, 0, 0]) (\<lambda>n. 200) (exampleConfig 5 True) = Some (Inr res) \<and>
        probabilityThreshold res = 1 \<and>
        map avgProbability (map fst (labelled res)) = [1])"
proof -
  let ?f = "\<lambda>bytes :: 8 word list. real (unat (hd bytes))"
  have short: "\<exists>e. processImage ?f (Some (1, 1, [rgb 10 10 10])) (Some [1, 0]) (\<lambda>n. 200)
      (exampleConfig 5 True) = Some (Inl e)"
    using heatmap_rejected_iff_too_short
      [of ?f 1 1 "[rgb 10 10 10]" "Some [1, 0]" "\<lambda>n. 200" "exampleConfig 5 True"]
    by simp
  have "map_option (\<lambda>res. (probabilityThreshold res, map avgProbability (map fst (labelled res))))
      (processImage_run (exampleConfig 5 True) 1 1 [rgb 10 10 10]
       (take (nat (1 * 1)) (decodeFloats ?f [1, 0, 0, 0, 9, 0, 0, 0])) (\<lambda>n. 200)) = Some (1, [1])"
    by code_simp
  then have run: "\<exists>res. processImage_run (exampleConfig 5 True) 1 1 [rgb 10 10 10]
       (take (nat (1 * 1)) (decodeFloats ?f [1, 0, 0, 0, 9, 0, 0, 0])) (\<lambda>n. 200) = Some res \<and>
        probabilityThreshold res = 1 \<and>
        map avgProbability (map fst (labelled res)) = [1]"
    by auto
  have long: "processImage ?f (Some (1, 1, [rgb 10 10 10]))
          (Some [1, 0, 0, 0, 9, 0, 0, 0]) (\<lambda>n. 200) (exampleConfig 5 True) =
        map_option Inr (processImage_run (exampleConfig 5 True) 1 1 [rgb 10 10 10]
       (take (nat (1 * 1)) (decodeFloats ?f [1, 0, 0, 0, 9, 0, 0, 0])) (\<lambda>n. 200))"
    using heatmap_rejected_iff_too_short
      [of ?f 1 1 "[rgb 10 10 10]" "Some [1, 0, 0, 0, 9, 0, 0, 0]" "\<lambda>n. 200" "exampleConfig 5 True"]
    by simp
  from run long short show ?thesis
    by auto
qed

text \<open>C9 as stated fails: for a 1 x 1 image a heatmap file of eight bytes has not the
  length of one float, and the image is processed all the same.\<close>

theorem heatmap_too_long_is_accepted:
  "length (replicate 8 (0 :: 8 word)) \<noteq> 4 * nat (1 * 1) \<and>
   map_option isl
     (processImage (\<lambda>bytes. 0) (Some (1, 1, [rgb 10 10 10])) (Some (replicate 8 0))
        (\<lambda>n. 200) (exampleConfig 5 True)) = Some False"
  by code_simp

section \<open>The thresholds and the classification rule\<close>

lemma processImage_run_SomeD:
  assumes "processImage_run cfg width height img heatmap gen = Some res"
  obtains pt st where "probabilityThreshold80 heatmap = Some pt"
    and "processImage_scan cfg width height heatmap gen (initialState width height img) = Some st"
    and "res = \<lparr>probabilityThreshold = pt,
                sizeThreshold = sizeThreshold80 (components st),
                labelled = map (\<lambda>cmp. (cmp, isBuildingBlock pt (sizeThreshold80 (components st)) cmp))
                             (components st),
                segmentation = image_buf st\<rparr>"
  using assms by (auto simp: processImage_run_def Let_def split: option.splits)

lemma probabilityThreshold80_SomeD:
  assumes "probabilityThreshold80 heatmap = Some pt"
  shows "heatmap \<noteq> [] \<and> pt = sort heatmap ! ((4 * length heatmap) div 5)"
proof -
  have "heatmap \<noteq> []"
    using assms by (auto simp: probabilityThreshold80_def)
  then have "0 < length heatmap"
    by simp
  then have "(4 * length heatmap) div 5 < length heatmap"
    by linarith
  with assms show ?thesis
    using \<open>heatmap \<noteq> []\<close> by (simp add: probabilityThreshold80_def Let_def)
qed

text \<open>
  C1, as the code has it. The probability threshold that labels the components is taken
  from the heatmap itself: it is the entry at index \<open>\<lfloor>0.8 M\<rfloor>\<close> of the \<open>M = width * height\<close>
  heatmap values sorted ascending (an index that never exceeds the last one). The
  components' average probabilities play no part in it.
\<close>

theorem probabilityThreshold_from_heatmap_pixels:
  assumes "processImage_run cfg width height img heatmap gen = Some res"
  shows "heatmap \<noteq> [] \<and>
         (4 * length heatmap) div 5 \<le> length heatmap - 1 \<and>
         probabilityThreshold res = sort heatmap ! ((4 * length heatmap) div 5) \<and>
         map snd (labelled res) =
           map (\<lambda>cmp. probabilityThreshold res \<le> avgProbability cmp \<and>
                       size_comp cmp \<le> sizeThreshold res) (map fst (labelled res))"
proof -
  from assms obtain pt st where pt: "probabilityThreshold80 heatmap = Some pt"
    and "processImage_scan cfg width height heatmap gen (initialState width height img) = Some st"
    and res: "res = \<lparr>probabilityThreshold = pt,
                sizeThreshold = sizeThreshold80 (components st),
                labelled = map (\<lambda>cmp. (cmp, isBuildingBlock pt (sizeThreshold80 (components st)) cmp))
                             (components st),
                segmentation = image_buf st\<rparr>"
    by (rule processImage_run_SomeD)
  from probabilityThreshold80_SomeD [OF pt]
  have ne: "heatmap \<noteq> []" and val: "pt = sort heatmap ! ((4 * length heatmap) div 5)"
    by simp_all
  from ne have "0 < length heatmap"
    by simp
  then have "(4 * length heatmap) div 5 \<le> length heatmap - 1"
    by linarith
  then show ?thesis
    using ne val by (simp add: res isBuildingBlock_def comp_def)
qed

theorem probabilityThreshold_from_heatmap_pixels_witness:
  "\<exists>res. processImage_run (exampleConfig 5 True) 2 1 equalPixels [0, 1] (\<lambda>n. 200) = Some res \<and>
         probabilityThreshold res = sort [0, 1] ! ((4 * length [0, 1 :: real]) div 5)"
proof -
  have "processImage_run (exampleConfig 5 True) 2 1 equalPixels [0, 1] (\<lambda>n. 200) \<noteq> None"
    by code_simp
  then obtain res where
    run: "processImage_run (exampleConfig 5 True) 2 1 equalPixels [0, 1] (\<lambda>n. 200) = Some res"
    by blast
  from probabilityThreshold_from_heatmap_pixels [OF run] run show ?thesis
    by blast
qed

text \<open>C1 as stated fails: two equal pixels with heatmap values 0 and 1 form one component
  of average probability 1/2. The specification's threshold over the components is 1/2;
  the threshold of the code is 1.\<close>

theorem probabilityThreshold_not_from_components:
  "map_option probabilityThreshold
     (processImage_run (exampleConfig 5 True) 2 1 equalPixels [0, 1] (\<lambda>n. 200)) = Some 1 \<and>
   map_option (spec_probabilityThreshold \<circ> map fst \<circ> labelled)
     (processImage_run (exampleConfig 5 True) 2 1 equalPixels [0, 1] (\<lambda>n. 200)) = Some (1 / 2)"
  by code_simp

lemma sizeThreshold80_eq:
  "sizeThreshold80 comps =
     (if comps = [] then 0
      else sort (map size_comp comps) ! ((9 * length comps) div 10))"
proof (cases "comps = []")
  case True
  then show ?thesis
    by (simp add: sizeThreshold80_def)
next
  case False
  then have "0 < length comps"
    by simp
  then have "(9 * length comps) div 10 < length comps"
    by linarith
  moreover from False have "sort (map size_comp comps) \<noteq> []"
    by (metis length_sort length_map length_0_conv)
  ultimately show ?thesis
    using False by (simp add: sizeThreshold80_def Let_def)
qed

text \<open>
  C2, as the code has it. A component is labelled a building block exactly when its
  average probability is at least the probability threshold and its pixel count is at most
  the size threshold. The size threshold is the entry at index \<open>\<lfloor>0.9 N\<rfloor>\<close> of the \<open>N\<close>
  components' pixel counts sorted ascending (an index that never exceeds the last one),
  and 0 when there is no component.
\<close>

theorem building_block_rule:
  assumes "processImage_run cfg width height img heatmap gen = Some res"
  shows "map snd (labelled res) =
           map (\<lambda>cmp. probabilityThreshold res \<le> avgProbability cmp \<and>
                       size_comp cmp \<le> sizeThreshold res) (map fst (labelled res)) \<and>
         (9 * length (labelled res)) div 10 \<le> length (labelled res) - 1 \<and>
         sizeThreshold res =
           (if labelled res = [] then 0
            else sort (map (size_comp \<circ> fst) (labelled res)) !
                   ((9 * length (labelled res)) div 10))"
proof -
  from assms obtain pt st where "probabilityThreshold80 heatmap = Some pt"
    and "processImage_scan cfg width height heatmap gen (initialState width height img) = Some st"
    and res: "res = \<lparr>probabilityThreshold = pt,
                sizeThreshold = sizeThreshold80 (components st),
                labelled = map (\<lambda>cmp. (cmp, isBuildingBlock pt (sizeThreshold80 (components st)) cmp))
                             (components st),
                segmentation = image_buf st\<rparr>"
    by (rule processImage_run_SomeD)
  have "(9 * length (components st)) div 10 \<le> length (components st) - 1"
    by linarith
  then show ?thesis
    by (simp add: res isBuildingBlock_def comp_def sizeThreshold80_eq)
qed

theorem building_block_rule_witness:
  "\<exists>res. processImage_run (exampleConfig 5 True) 2 1 equalPixels [0, 1] (\<lambda>n. 200) = Some res \<and>
         sizeThreshold res =
           (if labelled res = [] then 0
            else sort (map (size_comp \<circ> fst) (labelled res)) !
                   ((9 * length (labelled res)) div 10))"
proof -
  have "processImage_run (exampleConfig 5 True) 2 1 equalPixels [0, 1] (\<lambda>n. 200) \<noteq> None"
    by code_simp
  then obtain res where
    run: "processImage_run (exampleConfig 5 True) 2 1 equalPixels [0, 1] (\<lambda>n. 200) = Some res"
    by blast
  from building_block_rule [OF run] run show ?thesis
    by blast
qed

text \<open>C2 as stated fails: on the row of 23 pixels the scan finds eleven components, of
  sizes 3, 2, ..., 2, each of average probability 1, and the probability threshold is 1.
  The specification's size threshold, at rank \<open>\<lceil>0.9 * 11\<rceil> = 10\<close>, is 3, so that the first
  component would be a building block; the code takes rank 9, its size threshold is 2,
  and it labels the first component as no building block.\<close>

theorem size_threshold_rank_is_truncated:
  "map_option (map (size_comp \<circ> fst) \<circ> labelled)
     (processImage_run (exampleConfig 0 True) 23 1 stripes (replicate 23 1) (\<lambda>n. 200))
     = Some [3, 2, 2, 2, 2, 2, 2, 2, 2, 2, 2] \<and>
   map_option (map (avgProbability \<circ> fst) \<circ> labelled)
     (processImage_run (exampleConfig 0 True) 23 1 stripes (replicate 23 1) (\<lambda>n. 200))
     = Some [1, 1, 1, 1, 1, 1, 1, 1, 1, 1, 1] \<and>
   map_option probabilityThreshold
     (processImage_run (exampleConfig 0 True) 23 1 stripes (replicate 23 1) (\<lambda>n. 200))
     = Some 1 \<and>
   map_option (spec_sizeThreshold \<circ> map fst \<circ> labelled)
     (processImage_run (exampleConfig 0 True) 23 1 stripes (replicate 23 1) (\<lambda>n. 200))
     = Some 3 \<and>
   map_option sizeThreshold
     (processImage_run (exampleConfig 0 True) 23 1 stripes (replicate 23 1) (\<lambda>n. 200))
     = Some 2 \<and>
   map_option (map snd \<circ> labelled)
     (processImage_run (exampleConfig 0 True) 23 1 stripes (replicate 23 1) (\<lambda>n. 200))
     = Some [False, True, True, True, True, True, True, True, True, True, True]"
  by code_simp

section \<open>A pixel that the scan finds visited\<close>

lemma processImage_pixel_visited:
  assumes "inBounds width height x y" and "pix width x y < length (visited t)"
    and "visited t ! pix width x y"
  shows "processImage_pixel cfg width height heatmap gen x y t = Some t"
proof -
  from assms(1) have "0 \<le> y * width + x"
    by (simp add: inBounds_def)
  with assms(2,3) show ?thesis
    by (simp add: processImage_pixel_def cellIndex_def pix_def Let_def)
qed

section \<open>The probability aggregation\<close>

text \<open>The pixels of a bounding box that are set in the scratch mask.\<close>

definition maskedCells :: "int \<Rightarrow> bool list \<Rightarrow> int \<Rightarrow> int \<Rightarrow> int \<Rightarrow> int \<Rightarrow> (int \<times> int) set" where
  "maskedCells width bigM x0 x1 y0 y1 =
     {(cx, cy). x0 \<le> cx \<and> cx \<le> x1 \<and> y0 \<le> cy \<and> cy \<le> y1 \<and> bigM ! pix width cx cy}"

lemma set_masked_rowMajor:
  "set (masked width bigM (rowMajor x0 x1 y0 y1)) = maskedCells width bigM x0 x1 y0 y1"
  by (auto simp: masked_def maskedCells_def)


lemma cellsOf_replicate_False:
  "cellsOf width height (replicate (nat (width * height)) False) = {}"
proof -
  have "\<not> replicate (nat (width * height)) False ! pix width x y"
    if "inBounds width height x y" for x y
    using pix_less [OF that] by simp
  then show ?thesis
    by (auto simp: cellsOf_def)
qed

text \<open>The rounding at some values: a value of the format is kept; 0.11 goes to
  \<^verbatim>\<open>0x3DE147AE\<close>; \<open>2 ^ 24 + 1\<close> lies half way between two values of the format and goes to
  the even one, as does half of the least subnormal number; three times the
  \<^verbatim>\<open>float\<close> 0.11 is rounded down.\<close>

lemma roundSingle_examples:
  "roundSingle 1 = 1"
  "roundSingle (1 / 2) = 1 / 2"
  "roundSingle (11 / 100) = 14763950 / 2 ^ 27"
  "roundSingle (2 ^ 24 + 1) = 2 ^ 24"
  "roundSingle (2 ^ 24 + 3) = 2 ^ 24 + 4"
  "roundSingle (1 / 2 ^ 150) = 0"
  "roundSingle (- (3 / 2 ^ 150)) = - (1 / 2 ^ 148)"
  "float_add (float_add (14763950 / 2 ^ 27) (14763950 / 2 ^ 27)) (14763950 / 2 ^ 27) =
     44291848 / 2 ^ 27"
  by code_simp+

text \<open>The mean of a list of values as lines 504-517 and 298-314 compute it: the values
  are added one by one to the \<^verbatim>\<open>float\<close> 0, in the order of the list, and the sum is divided
  by the count converted to \<^verbatim>\<open>float\<close>.\<close>

definition floatMean :: "real list \<Rightarrow> real" where
  "floatMean vs = float_div (foldl float_add 0 vs) (float_of_int (int (length vs)))"


lemma extractMask_result:
  assumes box: "0 \<le> x0" "x0 \<le> x1" "x1 < width" "0 \<le> y0" "y0 \<le> y1" "y1 < height"
    and len: "length bigM = nat (width * height)" "length heatmap = nat (width * height)"
  shows "\<exists>msk. extractMask width heatmap bigM x0 x1 y0 y1 =
           Some (msk,
                 if maskedCells width bigM x0 x1 y0 y1 = {} then 0
                 else floatMean (maskedValues width heatmap bigM (rowMajor x0 x1 y0 y1))) \<and>
         length msk = nat ((x1 - x0 + 1) * (y1 - y0 + 1)) \<and>
         cellsOf (x1 - x0 + 1) (y1 - y0 + 1) msk =
           (\<lambda>(cx, cy). (cx - x0, cy - y0)) ` maskedCells width bigM x0 x1 y0 y1"
proof -
  let ?cw = "x1 - x0 + 1" and ?ch = "y1 - y0 + 1"
  let ?cells = "rowMajor x0 x1 y0 y1"
  let ?M = "maskedCells width bigM x0 x1 y0 y1"
  let ?L = "masked width bigM ?cells"
  let ?vs = "maskedValues width heatmap bigM ?cells"
  have cells: "inBounds width height cx cy \<and> inBounds ?cw ?ch (cx - x0) (cy - y0)"
    if "(cx, cy) \<in> set ?cells" for cx cy
    using that box by (auto simp: inBounds_def)
  have nonneg: "\<not> ?cw * ?ch < 0"
    using box by (simp add: not_less)
  from extractCells_result [of ?cells width height ?cw ?ch x0 y0 bigM heatmap
      "replicate (nat (?cw * ?ch)) False" 0 0, OF cells len]
  obtain msk where
    run: "extractCells width heatmap bigM x0 y0 ?cw ?cells (replicate (nat (?cw * ?ch)) False, 0, 0) =
            Some (msk, foldl float_add 0 ?vs, 0 + int (length ?L))"
    and lmsk: "length msk = length (replicate (nat (?cw * ?ch)) False)"
    and cmsk: "cellsOf ?cw ?ch msk =
         cellsOf ?cw ?ch (replicate (nat (?cw * ?ch)) False) \<union> (\<lambda>(cx, cy). (cx - x0, cy - y0)) ` set ?L"
    by auto
  have setL: "set ?L = ?M"
    by (rule set_masked_rowMajor)
  have lvs: "length ?vs = length ?L"
    by (simp add: maskedValues_def)
  have pos: "0 < int (length ?L) \<longleftrightarrow> ?M \<noteq> {}"
    unfolding setL [symmetric] by simp
  have "extractMask width heatmap bigM x0 x1 y0 y1 =
          Some (msk, if 0 < int (length ?L) then floatMean ?vs else 0)"
    unfolding extractMask_def Let_def floatMean_def lvs using nonneg by (simp add: run)
  then have "extractMask width heatmap bigM x0 x1 y0 y1 =
           Some (msk, if ?M = {} then 0 else floatMean ?vs)"
    unfolding pos by simp
  moreover have "length msk = nat (?cw * ?ch)"
    using lmsk by simp
  moreover have "cellsOf ?cw ?ch msk = (\<lambda>(cx, cy). (cx - x0, cy - y0)) ` ?M"
    using cmsk by (simp add: cellsOf_replicate_False setL)
  ultimately show ?thesis
    by blast
qed

lemma distinct_columns:
  assumes "distinct xs" and "distinct ys"
  shows "distinct (concat (map (\<lambda>cx. map (\<lambda>cy. (cx, cy)) ys) xs))"
  using assms(1)
proof (induction xs)
  case Nil
  then show ?case by simp
next
  case (Cons a xs)
  have "distinct (map (\<lambda>cy. (a, cy)) ys)"
    using assms(2) by (simp add: distinct_map inj_on_def)
  moreover have "set (map (\<lambda>cy. (a, cy)) ys) \<inter> set (concat (map (\<lambda>cx. map (\<lambda>cy. (cx, cy)) ys) xs)) = {}"
    using Cons.prems by auto
  ultimately show ?case
    using Cons by simp
qed

lemma distinct_columnMajor [simp]: "distinct (columnMajor x0 x1 y0 y1)"
  unfolding columnMajor_def by (rule distinct_columns) simp_all






text \<open>Whatever values the globals are reset to before a flood fill (the two routines use
  different ones), the seed ends up inside the bounding box and under the scratch mask:
  the mask of a region is never empty.\<close>

lemma seed_is_masked:
  fixes s1 s2 :: "'a Store_scheme"
  assumes fill: "floodFillIterative cfg x y width height (pix width x y) newColor s1 = Some s2"
    and wf: "wellFormed width height s1"
    and ib: "inBounds width height x y"
    and unv: "\<not> visited s1 ! pix width x y"
  shows "(x, y) \<in> maskedCells width (bigMask s2)
           (currentComponentXmin s2) (currentComponentXmax s2)
           (currentComponentYmin s2) (currentComponentYmax s2)"
proof -
  define V where "V = cellsOf width height (visited s2) - cellsOf width height (visited s1)"
  from wf pix_less [OF ib] have "pix width x y < length (image_buf s1)"
    by (simp add: wellFormed_def)
  with fill have loop: "floodFillLoop cfg width height (pix width x y) newColor
      [(x, y, image_buf s1 ! pix width x y)] s1 = Some s2"
    by (simp add: floodFillIterative_def del: floodFillLoop_Cons)
  from floodFillLoop_fillInv [OF loop wf] have inv: "fillInv width height s1 s2" .
  from floodFillLoop_visits_stack [OF loop wf _ ib] have "(x, y) \<in> cellsOf width height (visited s2)"
    by simp
  with unv have seed: "(x, y) \<in> V"
    by (simp add: V_def cellsOf_def)
  have fin: "finite (fst ` V)" "finite (snd ` V)"
    by (simp_all add: V_def)
  from seed have mem: "x \<in> fst ` V" "y \<in> snd ` V"
    by (auto intro: rev_image_eqI)
  from inv seed have "(x, y) \<in> cellsOf width height (bigMask s2)"
    by (simp add: fillInv_def V_def)
  then have "bigMask s2 ! pix width x y"
    by (simp add: cellsOf_def)
  moreover from inv have "currentComponentXmin s2 = Min (insert (currentComponentXmin s1) (fst ` V))"
    "currentComponentXmax s2 = Max (insert (currentComponentXmax s1) (fst ` V))"
    "currentComponentYmin s2 = Min (insert (currentComponentYmin s1) (snd ` V))"
    "currentComponentYmax s2 = Max (insert (currentComponentYmax s1) (snd ` V))"
    by (simp_all add: fillInv_def V_def)
  then have "currentComponentXmin s2 \<le> x" "x \<le> currentComponentXmax s2"
    "currentComponentYmin s2 \<le> y" "y \<le> currentComponentYmax s2"
    using fin mem by simp_all
  ultimately show ?thesis
    by (simp add: maskedCells_def)
qed

section \<open>The work on one region\<close>

lemma dropped_cong:
  assumes "currentComponentXmin s = currentComponentXmin t"
    and "currentComponentXmax s = currentComponentXmax t"
    and "currentComponentYmin s = currentComponentYmin t"
    and "currentComponentYmax s = currentComponentYmax t"
    and "currentComponentSize s = currentComponentSize t"
  shows "dropped cfg s = dropped cfg t"
  using assms by (simp add: dropped_def)

text \<open>The colour drawn for a region and the state in which its flood fill starts
  (lines 476-485).\<close>

definition drawnColor :: "(nat \<Rightarrow> 8 word) \<Rightarrow> ScanState \<Rightarrow> Color" where
  "drawnColor gen st = \<lparr>r = gen (genPos st), g = gen (genPos st + 1), b = gen (genPos st + 2)\<rparr>"

definition resetState :: "int \<Rightarrow> int \<Rightarrow> ScanState \<Rightarrow> ScanState" where
  "resetState width height st =
     st\<lparr>genPos := genPos st + 3,
        currentComponentXmin := width,
        currentComponentXmax := 0,
        currentComponentYmin := height,
        currentComponentYmax := 0,
        currentComponentSize := 0\<rparr>"

lemma processImage_region_cases [consumes 1, case_names drop keep]:
  assumes "processImage_region cfg width height heatmap gen x y st = Some st'"
  obtains
    (drop) st2 m where
      "floodFillIterative cfg x y width height (nat (y * width + x)) (drawnColor gen st)
         (resetState width height st) = Some st2"
      and "dropped cfg st2"
      and "clearCells width
             (columnMajor (currentComponentXmin st2) (currentComponentXmax st2)
                (currentComponentYmin st2) (currentComponentYmax st2)) (bigMask st2) = Some m"
      and "st' = st2\<lparr>fillSizes := fillSizes st2 @ [currentComponentSize st2], bigMask := m\<rparr>"
  | (keep) st2 m msk avgProb where
      "floodFillIterative cfg x y width height (nat (y * width + x)) (drawnColor gen st)
         (resetState width height st) = Some st2"
      and "\<not> dropped cfg st2"
      and "clearCells width
             (columnMajor (currentComponentXmin st2) (currentComponentXmax st2)
                (currentComponentYmin st2) (currentComponentYmax st2)) (bigMask st2) = Some m"
      and "extractMask width heatmap (bigMask st2)
             (currentComponentXmin st2) (currentComponentXmax st2)
             (currentComponentYmin st2) (currentComponentYmax st2) = Some (msk, avgProb)"
      and "st' = st2\<lparr>fillSizes := fillSizes st2 @ [currentComponentSize st2], bigMask := m,
                     components := components st2 @
                       [\<lparr>id_comp = componentCount st2 + 1,
                         xMin = currentComponentXmin st2,
                         xMax = currentComponentXmax st2,
                         yMin = currentComponentYmin st2,
                         yMax = currentComponentYmax st2,
                         size_comp = currentComponentSize st2,
                         avgProbability = avgProb,
                         mask_comp = msk\<rparr>],
                     componentCount := componentCount st2 + 1\<rparr>"
proof -
  from assms obtain st2 where
    fill: "floodFillIterative cfg x y width height (nat (y * width + x)) (drawnColor gen st)
         (resetState width height st) = Some st2"
    by (auto simp: processImage_region_def drawnColor_def resetState_def Let_def split: option.splits)
  let ?st3 = "st2\<lparr>fillSizes := fillSizes st2 @ [currentComponentSize st2]\<rparr>"
  have d3: "dropped cfg ?st3 = dropped cfg st2"
    by (rule dropped_cong) simp_all
  note unf = processImage_region_def drawnColor_def [symmetric] resetState_def [symmetric]
  show ?thesis
  proof (cases "dropped cfg st2")
    case True
    with assms fill d3 obtain m where
      "clearCells width
             (columnMajor (currentComponentXmin st2) (currentComponentXmax st2)
                (currentComponentYmin st2) (currentComponentYmax st2)) (bigMask st2) = Some m"
      "st' = ?st3\<lparr>bigMask := m\<rparr>"
      unfolding unf by (auto simp: Let_def split: option.splits)
    with fill True show ?thesis
      by (intro drop [of st2 m]) simp_all
  next
    case False
    with assms fill d3 obtain m msk avgProb where
      "clearCells width
             (columnMajor (currentComponentXmin st2) (currentComponentXmax st2)
                (currentComponentYmin st2) (currentComponentYmax st2)) (bigMask st2) = Some m"
      "extractMask width heatmap (bigMask st2)
             (currentComponentXmin st2) (currentComponentXmax st2)
             (currentComponentYmin st2) (currentComponentYmax st2) = Some (msk, avgProb)"
      "st' = ?st3\<lparr>bigMask := m,
                     components := components ?st3 @
                       [\<lparr>id_comp = componentCount ?st3 + 1,
                         xMin = currentComponentXmin ?st3,
                         xMax = currentComponentXmax ?st3,
                         yMin = currentComponentYmin ?st3,
                         yMax = currentComponentYmax ?st3,
                         size_comp = currentComponentSize ?st3,
                         avgProbability = avgProb,
                         mask_comp = msk\<rparr>],
                     componentCount := componentCount ?st3 + 1\<rparr>"
      unfolding unf by (auto simp: Let_def split: option.splits)
    with fill False show ?thesis
      by (intro keep [of st2 m msk avgProb]) simp_all
  qed
qed


lemma more_eq_ScanState:
  fixes a c :: ScanState
  assumes "Store.more a = Store.more c"
  shows "components a = components c" and "componentCount a = componentCount c"
    and "genPos a = genPos c" and "fillSizes a = fillSizes c"
  using assms by (cases a, cases c, simp)+

lemma floodFillStep_more:
  assumes "floodFillStep cfg width height startColor newColor e rest t = Some (stk', t')"
  shows "Store.more t' = Store.more t"
proof -
  obtain x y c where e: "e = (x, y, c)"
    by (cases e) auto
  from assms [unfolded e] show ?thesis
    by (cases rule: floodFillStep_cases) simp_all
qed

lemma floodFillIterative_more:
  assumes "floodFillIterative cfg x y width height startColor newColor s = Some s'"
  shows "Store.more s' = Store.more s"
proof -
  from assms have loop: "floodFillLoop cfg width height startColor newColor
      [(x, y, image_buf s ! startColor)] s = Some s'"
    by (simp add: floodFillIterative_def del: floodFillLoop_Cons split: if_splits)
  define I where "I = (\<lambda>(stk :: entry list) (t :: 'a Store_scheme). Store.more t = Store.more s)"
  have "I [] s'"
    using loop
  proof (rule floodFillLoop_rule [where I = I])
    show "I [(x, y, image_buf s ! startColor)] s"
      by (simp add: I_def)
  next
    fix e rest stk' and t t' :: "'a Store_scheme"
    assume "I (e # rest) t"
      and "floodFillStep cfg width height startColor newColor e rest t = Some (stk', t')"
    then show "I stk' t'"
      by (simp add: I_def floodFillStep_more)
  qed
  then show ?thesis
    by (simp add: I_def)
qed

lemma clearCells_keeps_False:
  assumes "clearCells width cells m = Some m'" and "\<not> m ! i"
  shows "\<not> m' ! i"
  using assms
proof (induction cells arbitrary: m)
  case Nil
  then show ?case by simp
next
  case (Cons p cells)
  obtain cx cy where p: "p = (cx, cy)"
    by (cases p) auto
  from Cons.prems(1) obtain j where j: "cellIndex width m cx cy = Some j"
    and rest: "clearCells width cells (m[j := False]) = Some m'"
    by (auto simp: p split: option.splits)
  have "\<not> m[j := False] ! i"
    using Cons.prems(2) by (cases "j < length m") (auto simp: nth_list_update list_update_beyond)
  from Cons.IH [OF rest this] show ?case .
qed

lemma clearCells_length:
  assumes "clearCells width cells m = Some m'"
  shows "length m' = length m"
  using assms
proof (induction cells arbitrary: m)
  case Nil
  then show ?case by simp
next
  case (Cons p cells)
  obtain cx cy where p: "p = (cx, cy)"
    by (cases p) auto
  from Cons.prems obtain j where "clearCells width cells (m[j := False]) = Some m'"
    by (auto simp: p split: option.splits)
  from Cons.IH [OF this] show ?case
    by simp
qed

lemma clearCells_cleared:
  assumes "clearCells width cells m = Some m'" and "(cx, cy) \<in> set cells"
  shows "0 \<le> cy * width + cx \<and> nat (cy * width + cx) < length m' \<and> \<not> m' ! nat (cy * width + cx)"
  using assms
proof (induction cells arbitrary: m)
  case Nil
  then show ?case by simp
next
  case (Cons p cells)
  obtain px py where p: "p = (px, py)"
    by (cases p) auto
  from Cons.prems(1) obtain j where j: "cellIndex width m px py = Some j"
    and rest: "clearCells width cells (m[j := False]) = Some m'"
    by (auto simp: p split: option.splits)
  show ?case
  proof (cases "(cx, cy) \<in> set cells")
    case True
    from Cons.IH [OF rest True] show ?thesis .
  next
    case False
    with Cons.prems(2) have eq: "px = cx" "py = cy"
      by (simp_all add: p)
    from j have j0: "0 \<le> cy * width + cx" and jl: "nat (cy * width + cx) < length m"
      and jv: "j = nat (cy * width + cx)"
      by (auto simp: cellIndex_def eq Let_def split: if_splits)
    have len: "length m' = length m"
      using clearCells_length [OF rest] by simp
    have "\<not> m[j := False] ! j"
      using jl by (simp add: jv)
    from clearCells_keeps_False [OF rest this] j0 jl len show ?thesis
      by (simp add: jv)
  qed
qed


lemma resetState_more [simp]:
  "components (resetState width height st) = components st"
  "componentCount (resetState width height st) = componentCount st"
  "fillSizes (resetState width height st) = fillSizes st"
  "genPos (resetState width height st) = genPos st + 3"
  "visited (resetState width height st) = visited st"
  "bigMask (resetState width height st) = bigMask st"
  "image_buf (resetState width height st) = image_buf st"
  "currentComponentXmin (resetState width height st) = width"
  "currentComponentXmax (resetState width height st) = 0"
  "currentComponentYmin (resetState width height st) = height"
  "currentComponentYmax (resetState width height st) = 0"
  "currentComponentSize (resetState width height st) = 0"
  by (simp_all add: resetState_def)

text \<open>Over a whole scan: every record in the component vector passes both tests.\<close>

definition passesFilter :: "Config \<Rightarrow> ComponentData \<Rightarrow> bool" where
  "passesFilter cfg c \<longleftrightarrow>
     minComponentSize cfg \<le> size_comp c \<and>
     cdiv ((xMax c - xMin c + 1) * (yMax c - yMin c + 1)) 3 \<le> size_comp c"

lemma processImage_region_components:
  assumes "processImage_region cfg width height heatmap gen x y st = Some st'"
  shows "components st' = components st \<or>
         (\<exists>c. components st' = components st @ [c] \<and> passesFilter cfg c)"
  using assms
proof (cases rule: processImage_region_cases)
  case (drop st2 m)
  from floodFillIterative_more [OF drop(1)] have "components st2 = components st"
    using more_eq_ScanState(1) [of st2 "resetState width height st"] by simp
  then show ?thesis
    by (simp add: drop(4))
next
  case (keep st2 m msk avgProb)
  from floodFillIterative_more [OF keep(1)] have "components st2 = components st"
    using more_eq_ScanState(1) [of st2 "resetState width height st"] by simp
  moreover from keep(2) have "minComponentSize cfg \<le> currentComponentSize st2"
    "cdiv ((currentComponentXmax st2 - currentComponentXmin st2 + 1) *
           (currentComponentYmax st2 - currentComponentYmin st2 + 1)) 3
       \<le> currentComponentSize st2"
    by (simp_all add: dropped_def Let_def not_less)
  ultimately show ?thesis
    by (simp add: keep(5) passesFilter_def)
qed

lemma scanCells_components:
  assumes "scanCells cfg width height heatmap gen cells st = Some st'"
    and "\<And>c. c \<in> set (components st) \<Longrightarrow> passesFilter cfg c"
  shows "c \<in> set (components st') \<Longrightarrow> passesFilter cfg c"
  using assms
proof (induction cells arbitrary: st)
  case Nil
  then show ?case by simp
next
  case (Cons p cells)
  obtain x y where p: "p = (x, y)"
    by (cases p) auto
  from Cons.prems(2) obtain st1 where
    px: "processImage_pixel cfg width height heatmap gen x y st = Some st1"
    and rest: "scanCells cfg width height heatmap gen cells st1 = Some st'"
    by (auto simp: p split: option.splits)
  from px have "st1 = st \<or> processImage_region cfg width height heatmap gen x y st = Some st1"
    by (auto simp: processImage_pixel_def split: option.splits if_splits)
  then have "components st1 = components st \<or>
         (\<exists>c. components st1 = components st @ [c] \<and> passesFilter cfg c)"
    using processImage_region_components by blast
  with Cons.prems(3) have "passesFilter cfg c" if "c \<in> set (components st1)" for c
    using that by auto
  from Cons.IH [OF Cons.prems(1) rest this] show ?case .
qed

lemma kept_components_pass_filter:
  assumes "processImage_scan cfg width height heatmap gen (initialState width height img) = Some st'"
    and "c \<in> set (components st')"
  shows "minComponentSize cfg \<le> size_comp c \<and>
         cdiv ((xMax c - xMin c + 1) * (yMax c - yMin c + 1)) 3 \<le> size_comp c"
  using scanCells_components [OF assms(1) [unfolded processImage_scan_def] _ assms(2)]
  by (simp add: initialState_def passesFilter_def)

section \<open>Invariant of the raster scan\<close>

text \<open>The invariant of the raster scan between two regions: the vectors have the size of
  the image, the scratch mask is clear, and the sizes reported so far add up to the number
  of visited pixels.\<close>

definition scanInv :: "int \<Rightarrow> int \<Rightarrow> ScanState \<Rightarrow> bool" where
  "scanInv width height st \<longleftrightarrow>
     wellFormed width height st \<and>
     cellsOf width height (bigMask st) = {} \<and>
     sum_list (fillSizes st) = int (card (cellsOf width height (visited st)))"

lemma wellFormed_resetState [simp]:
  "wellFormed width height (resetState width height st) = wellFormed width height st"
  by (simp add: wellFormed_def)

lemma floodFillIterative_Some:
  assumes "wellFormed width height s" and "startColor < nat (width * height)"
  shows "\<exists>s'. floodFillIterative cfg x y width height startColor newColor s = Some s'"
proof -
  from assms have "startColor < length (image_buf s)"
    by (simp add: wellFormed_def)
  then show ?thesis
    using floodFillLoop_Some [OF assms] by (simp add: floodFillIterative_def del: floodFillLoop_Cons)
qed

text \<open>The facts about a region that the scan relies on, collected for an arbitrary
  outcome \<open>st2\<close> of the flood fill.\<close>

lemma region_fill_facts:
  assumes inv: "scanInv width height st"
    and ib: "inBounds width height x y"
    and unv: "(x, y) \<notin> cellsOf width height (visited st)"
    and fill: "floodFillIterative cfg x y width height (nat (y * width + x)) newColor
                 (resetState width height st) = Some st2"
  defines "V \<equiv> cellsOf width height (visited st2) - cellsOf width height (visited st)"
  shows "wellFormed width height st2"
    and "cellsOf width height (visited st) \<subseteq> cellsOf width height (visited st2)"
    and "(x, y) \<in> V"
    and "cellsOf width height (bigMask st2) = V"
    and "currentComponentSize st2 = int (card V)"
    and "currentComponentXmin st2 = Min (fst ` V)"
    and "currentComponentXmax st2 = Max (fst ` V)"
    and "currentComponentYmin st2 = Min (snd ` V)"
    and "currentComponentYmax st2 = Max (snd ` V)"
    and "components st2 = components st"
    and "componentCount st2 = componentCount st"
    and "fillSizes st2 = fillSizes st"
    and "0 \<le> Min (fst ` V)" and "Min (fst ` V) \<le> Max (fst ` V)" and "Max (fst ` V) < width"
    and "0 \<le> Min (snd ` V)" and "Min (snd ` V) \<le> Max (snd ` V)" and "Max (snd ` V) < height"
    and "V \<subseteq> {Min (fst ` V)..Max (fst ` V)} \<times> {Min (snd ` V)..Max (snd ` V)}"
    and "int (card V) \<le> (Max (fst ` V) - Min (fst ` V) + 1) * (Max (snd ` V) - Min (snd ` V) + 1)"
proof -
  let ?s1 = "resetState width height st"
  from inv have wf: "wellFormed width height ?s1"
    and nomask: "cellsOf width height (bigMask st) = {}"
    by (simp_all add: scanInv_def)
  have fill': "floodFillIterative cfg x y width height (pix width x y) newColor ?s1 = Some st2"
    using fill by (simp add: pix_def)
  have unv': "(x, y) \<notin> cellsOf width height (visited ?s1)"
    using unv by simp
  note R = floodFillIterative_region [OF fill' wf ib unv', simplified]
  show "wellFormed width height st2"
    and "cellsOf width height (visited st) \<subseteq> cellsOf width height (visited st2)"
    and seed: "(x, y) \<in> V"
    and "currentComponentSize st2 = int (card V)"
    and "currentComponentXmin st2 = Min (fst ` V)"
    and "currentComponentXmax st2 = Max (fst ` V)"
    and "currentComponentYmin st2 = Min (snd ` V)"
    and "currentComponentYmax st2 = Max (snd ` V)"
    using R unfolding V_def by simp_all
  from R(4) nomask show "cellsOf width height (bigMask st2) = V"
    by (simp add: V_def)
  from R(10) show "components st2 = components st"
    and "componentCount st2 = componentCount st"
    and "fillSizes st2 = fillSizes st"
    using more_eq_ScanState [of st2 ?s1] by simp_all
  have fin: "finite V"
    by (simp add: V_def)
  have ne: "V \<noteq> {}"
    using seed by blast
  have inb: "inBounds width height a c" if "(a, c) \<in> V" for a c
    using that by (auto simp: V_def dest: cellsOf_inBounds)
  have finx: "finite (fst ` V)" "fst ` V \<noteq> {}" and finy: "finite (snd ` V)" "snd ` V \<noteq> {}"
    using fin ne by auto
  have "Min (fst ` V) \<in> fst ` V" and "Max (fst ` V) \<in> fst ` V"
    and "Min (snd ` V) \<in> snd ` V" and "Max (snd ` V) \<in> snd ` V"
    by (rule Min_in [OF finx] Max_in [OF finx] Min_in [OF finy] Max_in [OF finy])+
  then show "0 \<le> Min (fst ` V)" and "Max (fst ` V) < width"
    and "0 \<le> Min (snd ` V)" and "Max (snd ` V) < height"
    using inb by (auto simp: inBounds_def)
  show "Min (fst ` V) \<le> Max (fst ` V)" and "Min (snd ` V) \<le> Max (snd ` V)"
    using finx finy by (simp_all add: Min_le_iff)
  show "V \<subseteq> {Min (fst ` V)..Max (fst ` V)} \<times> {Min (snd ` V)..Max (snd ` V)}"
  proof
    fix p assume "p \<in> V"
    then have "fst p \<in> fst ` V" and "snd p \<in> snd ` V"
      by simp_all
    with fin have "Min (fst ` V) \<le> fst p" "fst p \<le> Max (fst ` V)"
      "Min (snd ` V) \<le> snd p" "snd p \<le> Max (snd ` V)"
      by simp_all
    then show "p \<in> {Min (fst ` V)..Max (fst ` V)} \<times> {Min (snd ` V)..Max (snd ` V)}"
      by (cases p) simp
  qed
  show "int (card V) \<le> (Max (fst ` V) - Min (fst ` V) + 1) * (Max (snd ` V) - Min (snd ` V) + 1)"
    by (rule card_box_bound [OF fin ne])
qed


lemma processImage_region_common:
  assumes "processImage_region cfg width height heatmap gen x y st = Some st'"
  obtains st2 m where
    "floodFillIterative cfg x y width height (nat (y * width + x)) (drawnColor gen st)
       (resetState width height st) = Some st2"
    and "clearCells width
           (columnMajor (currentComponentXmin st2) (currentComponentXmax st2)
              (currentComponentYmin st2) (currentComponentYmax st2)) (bigMask st2) = Some m"
    and "visited st' = visited st2" and "image_buf st' = image_buf st2" and "bigMask st' = m"
    and "currentComponentXmin st' = currentComponentXmin st2"
    and "currentComponentXmax st' = currentComponentXmax st2"
    and "currentComponentYmin st' = currentComponentYmin st2"
    and "currentComponentYmax st' = currentComponentYmax st2"
    and "currentComponentSize st' = currentComponentSize st2"
    and "fillSizes st' = fillSizes st2 @ [currentComponentSize st2]"
    and "components st' = components st2 \<or>
         (\<exists>msk avgProb.
            extractMask width heatmap (bigMask st2)
              (currentComponentXmin st2) (currentComponentXmax st2)
              (currentComponentYmin st2) (currentComponentYmax st2) = Some (msk, avgProb) \<and>
            components st' = components st2 @
              [\<lparr>id_comp = componentCount st2 + 1,
                xMin = currentComponentXmin st2, xMax = currentComponentXmax st2,
                yMin = currentComponentYmin st2, yMax = currentComponentYmax st2,
                size_comp = currentComponentSize st2,
                avgProbability = avgProb, mask_comp = msk\<rparr>])"
  using assms
proof (cases rule: processImage_region_cases)
  case (drop st2 m)
  show ?thesis
    by (rule that [OF drop(1) drop(3)]) (simp_all add: drop(4))
next
  case (keep st2 m msk avgProb)
  show ?thesis
    by (rule that [OF keep(1) keep(3)]) (simp_all add: keep(4,5))
qed

lemma maskedCells_box:
  assumes "cellsOf width height bigM = V"
    and "V \<subseteq> {x0..x1} \<times> {y0..y1}"
    and "0 \<le> x0" "x1 < width" "0 \<le> y0" "y1 < height"
  shows "maskedCells width bigM x0 x1 y0 y1 = V"
proof -
  have "(cx, cy) \<in> maskedCells width bigM x0 x1 y0 y1 \<longleftrightarrow> (cx, cy) \<in> V" for cx cy
  proof (cases "x0 \<le> cx \<and> cx \<le> x1 \<and> y0 \<le> cy \<and> cy \<le> y1")
    case True
    with assms(3-6) have "inBounds width height cx cy"
      by (simp add: inBounds_def)
    with True show ?thesis
      unfolding assms(1) [symmetric] by (simp add: maskedCells_def cellsOf_def)
  next
    case False
    with assms(2) have "(cx, cy) \<notin> V"
      by auto
    with False show ?thesis
      by (auto simp: maskedCells_def)
  qed
  then show ?thesis
    by auto
qed

lemma region_result:
  assumes inv: "scanInv width height st"
    and ib: "inBounds width height x y"
    and unv: "(x, y) \<notin> cellsOf width height (visited st)"
    and hm: "length heatmap = nat (width * height)"
    and run: "processImage_region cfg width height heatmap gen x y st = Some st'"
  defines "V \<equiv> cellsOf width height (visited st') - cellsOf width height (visited st)"
  shows "scanInv width height st'"
    and "cellsOf width height (visited st) \<subseteq> cellsOf width height (visited st')"
    and "(x, y) \<in> V"
    and "currentComponentXmin st' = Min (fst ` V)"
    and "currentComponentXmax st' = Max (fst ` V)"
    and "currentComponentYmin st' = Min (snd ` V)"
    and "currentComponentYmax st' = Max (snd ` V)"
    and "currentComponentSize st' = int (card V)"
    and "fillSizes st' = fillSizes st @ [int (card V)]"
    and "int (card V) \<le> (Max (fst ` V) - Min (fst ` V) + 1) * (Max (snd ` V) - Min (snd ` V) + 1)"
    and "components st' = components st \<or>
         (\<exists>c. components st' = components st @ [c] \<and>
              xMin c = Min (fst ` V) \<and> xMax c = Max (fst ` V) \<and>
              yMin c = Min (snd ` V) \<and> yMax c = Max (snd ` V) \<and>
              size_comp c = int (card V) \<and>
              cellsOf (xMax c - xMin c + 1) (yMax c - yMin c + 1) (mask_comp c) =
                (\<lambda>(cx, cy). (cx - xMin c, cy - yMin c)) ` V)"
proof -
  from run obtain st2 m where
    fill: "floodFillIterative cfg x y width height (nat (y * width + x)) (drawnColor gen st)
       (resetState width height st) = Some st2"
    and clear: "clearCells width
           (columnMajor (currentComponentXmin st2) (currentComponentXmax st2)
              (currentComponentYmin st2) (currentComponentYmax st2)) (bigMask st2) = Some m"
    and sel: "visited st' = visited st2" "image_buf st' = image_buf st2" "bigMask st' = m"
      "currentComponentXmin st' = currentComponentXmin st2"
      "currentComponentXmax st' = currentComponentXmax st2"
      "currentComponentYmin st' = currentComponentYmin st2"
      "currentComponentYmax st' = currentComponentYmax st2"
      "currentComponentSize st' = currentComponentSize st2"
      "fillSizes st' = fillSizes st2 @ [currentComponentSize st2]"
    and comps: "components st' = components st2 \<or>
         (\<exists>msk avgProb.
            extractMask width heatmap (bigMask st2)
              (currentComponentXmin st2) (currentComponentXmax st2)
              (currentComponentYmin st2) (currentComponentYmax st2) = Some (msk, avgProb) \<and>
            components st' = components st2 @
              [\<lparr>id_comp = componentCount st2 + 1,
                xMin = currentComponentXmin st2, xMax = currentComponentXmax st2,
                yMin = currentComponentYmin st2, yMax = currentComponentYmax st2,
                size_comp = currentComponentSize st2,
                avgProbability = avgProb, mask_comp = msk\<rparr>])"
    by (rule processImage_region_common)
  have V2: "V = cellsOf width height (visited st2) - cellsOf width height (visited st)"
    by (simp add: V_def sel)
  note F = region_fill_facts [OF inv ib unv fill, folded V2]
  let ?x0 = "Min (fst ` V)" and ?x1 = "Max (fst ` V)"
  let ?y0 = "Min (snd ` V)" and ?y1 = "Max (snd ` V)"
  show "cellsOf width height (visited st) \<subseteq> cellsOf width height (visited st')"
    using F(2) by (simp add: sel)
  show "(x, y) \<in> V"
    by (rule F(3))
  show "currentComponentXmin st' = ?x0" "currentComponentXmax st' = ?x1"
    "currentComponentYmin st' = ?y0" "currentComponentYmax st' = ?y1"
    "currentComponentSize st' = int (card V)"
    "fillSizes st' = fillSizes st @ [int (card V)]"
    by (simp_all add: sel F)
  show "int (card V) \<le> (?x1 - ?x0 + 1) * (?y1 - ?y0 + 1)"
    by (rule F(20))
  have lenm: "length (bigMask st2) = nat (width * height)"
    using F(1) by (simp add: wellFormed_def)
  have boxin: "inBounds width height cx cy"
    if "(cx, cy) \<in> set (columnMajor ?x0 ?x1 ?y0 ?y1)" for cx cy
    using that F(13,15,16,18) by (auto simp: inBounds_def)
  from clearCells_result [of "columnMajor ?x0 ?x1 ?y0 ?y1" width height "bigMask st2",
      OF boxin lenm] clear
  have m: "length m = length (bigMask st2)"
    "cellsOf width height m = cellsOf width height (bigMask st2) - set (columnMajor ?x0 ?x1 ?y0 ?y1)"
    by (auto simp: F(6,7,8,9))
  have mempty: "cellsOf width height m = {}"
    using F(19) by (auto simp: m(2) F(4))
  have wf': "wellFormed width height st'"
    using F(1) m(1) by (simp add: wellFormed_def sel)
  have "card (cellsOf width height (visited st2)) =
        card (cellsOf width height (visited st)) + card V"
    unfolding V2 using F(2) card_mono [OF _ F(2)]
    by (simp add: card_Diff_subset finite_subset [OF F(2)])
  then have "sum_list (fillSizes st') = int (card (cellsOf width height (visited st')))"
    using inv by (simp add: sel F scanInv_def)
  with wf' mempty show "scanInv width height st'"
    by (simp add: scanInv_def sel)
  from comps show "components st' = components st \<or>
         (\<exists>c. components st' = components st @ [c] \<and>
              xMin c = ?x0 \<and> xMax c = ?x1 \<and> yMin c = ?y0 \<and> yMax c = ?y1 \<and>
              size_comp c = int (card V) \<and>
              cellsOf (xMax c - xMin c + 1) (yMax c - yMin c + 1) (mask_comp c) =
                (\<lambda>(cx, cy). (cx - xMin c, cy - yMin c)) ` V)"
  proof
    assume "components st' = components st2"
    then show ?thesis
      by (simp add: F)
  next
    assume "\<exists>msk avgProb.
            extractMask width heatmap (bigMask st2)
              (currentComponentXmin st2) (currentComponentXmax st2)
              (currentComponentYmin st2) (currentComponentYmax st2) = Some (msk, avgProb) \<and>
            components st' = components st2 @
              [\<lparr>id_comp = componentCount st2 + 1,
                xMin = currentComponentXmin st2, xMax = currentComponentXmax st2,
                yMin = currentComponentYmin st2, yMax = currentComponentYmax st2,
                size_comp = currentComponentSize st2,
                avgProbability = avgProb, mask_comp = msk\<rparr>]"
    then obtain msk avgProb where
      ex: "extractMask width heatmap (bigMask st2) ?x0 ?x1 ?y0 ?y1 = Some (msk, avgProb)"
      and c: "components st' = components st @
              [\<lparr>id_comp = componentCount st + 1,
                xMin = ?x0, xMax = ?x1, yMin = ?y0, yMax = ?y1,
                size_comp = int (card V),
                avgProbability = avgProb, mask_comp = msk\<rparr>]"
      by (auto simp: F)
    have mc: "maskedCells width (bigMask st2) ?x0 ?x1 ?y0 ?y1 = V"
      by (rule maskedCells_box [OF F(4) F(19) F(13) F(15) F(16) F(18)])
    from extractMask_result [OF F(13,14,15,16,17,18) lenm hm] ex
    have "cellsOf (?x1 - ?x0 + 1) (?y1 - ?y0 + 1) msk = (\<lambda>(cx, cy). (cx - ?x0, cy - ?y0)) ` V"
      by (auto simp: mc)
    with c show ?thesis
      by simp
  qed
qed


lemma region_returns:
  assumes inv: "scanInv width height st"
    and ib: "inBounds width height x y"
    and unv: "(x, y) \<notin> cellsOf width height (visited st)"
    and hm: "length heatmap = nat (width * height)"
  shows "\<exists>st'. processImage_region cfg width height heatmap gen x y st = Some st'"
proof -
  from inv have wf: "wellFormed width height (resetState width height st)"
    by (simp add: scanInv_def)
  have "nat (y * width + x) < nat (width * height)"
    using pix_less [OF ib] by (simp add: pix_def)
  from floodFillIterative_Some [OF wf this] obtain st2 where
    fill: "floodFillIterative cfg x y width height (nat (y * width + x)) (drawnColor gen st)
       (resetState width height st) = Some st2"
    by blast
  define V where "V = cellsOf width height (visited st2) - cellsOf width height (visited st)"
  note F = region_fill_facts [OF inv ib unv fill, folded V_def]
  let ?x0 = "Min (fst ` V)" and ?x1 = "Max (fst ` V)"
  let ?y0 = "Min (snd ` V)" and ?y1 = "Max (snd ` V)"
  have lenm: "length (bigMask st2) = nat (width * height)"
    using F(1) by (simp add: wellFormed_def)
  have boxin: "inBounds width height cx cy"
    if "(cx, cy) \<in> set (columnMajor ?x0 ?x1 ?y0 ?y1)" for cx cy
    using that F(13,15,16,18) by (auto simp: inBounds_def)
  from clearCells_result [of "columnMajor ?x0 ?x1 ?y0 ?y1" width height "bigMask st2",
      OF boxin lenm]
  obtain m where clear: "clearCells width (columnMajor ?x0 ?x1 ?y0 ?y1) (bigMask st2) = Some m"
    by blast
  from extractMask_result [OF F(13,14,15,16,17,18) lenm hm] obtain msk avgProb where
    ex: "extractMask width heatmap (bigMask st2) ?x0 ?x1 ?y0 ?y1 = Some (msk, avgProb)"
    by blast
  let ?st3 = "st2\<lparr>fillSizes := fillSizes st2 @ [currentComponentSize st2]\<rparr>"
  have d3: "dropped cfg ?st3 = dropped cfg st2"
    by (rule dropped_cong) simp_all
  show ?thesis
    unfolding processImage_region_def drawnColor_def [symmetric] resetState_def [symmetric]
    by (cases "dropped cfg st2") (simp_all add: fill Let_def d3 F(6,7,8,9) clear ex)
qed

lemma pixel_result:
  assumes inv: "scanInv width height st"
    and ib: "inBounds width height x y"
    and hm: "length heatmap = nat (width * height)"
  shows "\<exists>st'. processImage_pixel cfg width height heatmap gen x y st = Some st' \<and>
           scanInv width height st' \<and>
           cellsOf width height (visited st) \<subseteq> cellsOf width height (visited st') \<and>
           (x, y) \<in> cellsOf width height (visited st')"
proof -
  from inv have len: "length (visited st) = nat (width * height)"
    by (simp add: scanInv_def wellFormed_def)
  note idx = cellIndex_inBounds [OF ib len]
  show ?thesis
  proof (cases "visited st ! pix width x y")
    case True
    then have "processImage_pixel cfg width height heatmap gen x y st = Some st"
      by (simp add: processImage_pixel_def idx)
    moreover from True ib have "(x, y) \<in> cellsOf width height (visited st)"
      by (simp add: cellsOf_def)
    ultimately show ?thesis
      using inv by simp
  next
    case False
    then have unv: "(x, y) \<notin> cellsOf width height (visited st)"
      by (simp add: cellsOf_def)
    from region_returns [OF inv ib unv hm] obtain st' where
      run: "processImage_region cfg width height heatmap gen x y st = Some st'"
      by blast
    from False have "processImage_pixel cfg width height heatmap gen x y st = Some st'"
      by (simp add: processImage_pixel_def idx run)
    with region_result(1,2,3) [OF inv ib unv hm run] show ?thesis
      by simp
  qed
qed

lemma scanCells_result:
  assumes "scanInv width height st"
    and "\<And>x y. (x, y) \<in> set cells \<Longrightarrow> inBounds width height x y"
    and hm: "length heatmap = nat (width * height)"
  shows "\<exists>st'. scanCells cfg width height heatmap gen cells st = Some st' \<and>
           scanInv width height st' \<and>
           cellsOf width height (visited st) \<subseteq> cellsOf width height (visited st') \<and>
           set cells \<subseteq> cellsOf width height (visited st')"
  using assms(1,2)
proof (induction cells arbitrary: st)
  case Nil
  then show ?case by simp
next
  case (Cons p cells)
  obtain x y where p: "p = (x, y)"
    by (cases p) auto
  have ib: "inBounds width height x y"
    using Cons.prems(2) [of x y] by (simp add: p)
  from pixel_result [OF Cons.prems(1) ib hm] obtain st1 where
    px: "processImage_pixel cfg width height heatmap gen x y st = Some st1"
    and inv1: "scanInv width height st1"
    and mono1: "cellsOf width height (visited st) \<subseteq> cellsOf width height (visited st1)"
    and seen: "(x, y) \<in> cellsOf width height (visited st1)"
    by blast
  have rest: "\<And>x y. (x, y) \<in> set cells \<Longrightarrow> inBounds width height x y"
    using Cons.prems(2) by simp
  from Cons.IH [OF inv1 rest] obtain st' where
    run: "scanCells cfg width height heatmap gen cells st1 = Some st'"
    and inv': "scanInv width height st'"
    and mono': "cellsOf width height (visited st1) \<subseteq> cellsOf width height (visited st')"
    and all: "set cells \<subseteq> cellsOf width height (visited st')"
    by blast
  have "scanCells cfg width height heatmap gen (p # cells) st = Some st'"
    by (simp add: p px run)
  moreover have "set (p # cells) \<subseteq> cellsOf width height (visited st')"
    using seen mono' all by (auto simp: p)
  ultimately show ?case
    using inv' mono1 mono' by blast
qed

lemma scanCells_append:
  "scanCells cfg width height heatmap gen (cs1 @ cs2) st =
     (case scanCells cfg width height heatmap gen cs1 st of
        None \<Rightarrow> None
      | Some t \<Rightarrow> scanCells cfg width height heatmap gen cs2 t)"
proof (induction cs1 arbitrary: st)
  case Nil
  then show ?case by simp
next
  case (Cons p cs1)
  obtain x y where p: "p = (x, y)"
    by (cases p) auto
  show ?case
    by (simp add: p Cons.IH split: option.splits)
qed

lemma scanInv_initialState:
  assumes "0 \<le> width" and "0 \<le> height" and "length img = nat (width * height)"
  shows "scanInv width height (initialState width height img)"
  using assms
  by (simp add: scanInv_def wellFormed_def initialState_def cellsOf_replicate_False)

lemma card_inBounds:
  assumes "0 \<le> width" and "0 \<le> height"
  shows "int (card {(x, y). inBounds width height x y}) = width * height"
proof -
  have "{(x, y). inBounds width height x y} = {0..<width} \<times> {0..<height}"
    by (auto simp: inBounds_def)
  then have "card {(x, y). inBounds width height x y} = nat width * nat height"
    by (simp add: card_cartesian_product)
  then show ?thesis
    using assms by simp
qed


section \<open>The raster scan visits every pixel once\<close>

text \<open>
  C3. On an image of \<open>width * height\<close> pixels with a heatmap of the same size the raster
  scan returns; the sizes reported by all its flood fills, kept or discarded, add up to
  \<open>width * height\<close>; at the end every pixel is visited; and along the pass no visited flag
  is ever unset: of two states that the scan passes through, one after the other, the
  later one has every pixel visited that the earlier one has.
\<close>

theorem every_pixel_visited_exactly_once:
  assumes "0 \<le> width" and "0 \<le> height"
    and "length img = nat (width * height)" and "length heatmap = nat (width * height)"
  shows "\<exists>st'. processImage_scan cfg width height heatmap gen (initialState width height img) = Some st' \<and>
           sum_list (fillSizes st') = width * height \<and>
           (\<forall>i < nat (width * height). visited st' ! i) \<and>
           (\<forall>cs1 cs2 cs3 t1 t2.
              rowMajor 0 (width - 1) 0 (height - 1) = cs1 @ cs2 @ cs3 \<and>
              scanCells cfg width height heatmap gen cs1 (initialState width height img) = Some t1 \<and>
              scanCells cfg width height heatmap gen cs2 t1 = Some t2 \<longrightarrow>
              (\<forall>i < nat (width * height). visited t1 ! i \<longrightarrow> visited t2 ! i))"
proof -
  let ?init = "initialState width height img"
  let ?cells = "rowMajor 0 (width - 1) 0 (height - 1)"
  note inv0 = scanInv_initialState [OF assms(1,2,3)]
  have inb: "inBounds width height x y" if "(x, y) \<in> set ?cells" for x y
    using that by (auto simp: inBounds_def)
  from scanCells_result [OF inv0 inb assms(4)] obtain st' where
    run: "scanCells cfg width height heatmap gen ?cells ?init = Some st'"
    and inv': "scanInv width height st'"
    and all: "set ?cells \<subseteq> cellsOf width height (visited st')"
    by blast
  have "cellsOf width height (visited st') = {(x, y). inBounds width height x y}"
  proof
    show "cellsOf width height (visited st') \<subseteq> {(x, y). inBounds width height x y}"
      by (auto simp: cellsOf_def)
    show "{(x, y). inBounds width height x y} \<subseteq> cellsOf width height (visited st')"
      using all by (auto simp: inBounds_def)
  qed
  with inv' have total: "sum_list (fillSizes st') = width * height"
    by (simp add: scanInv_def card_inBounds [OF assms(1,2)])
  have idx: "\<exists>x y. inBounds width height x y \<and> pix width x y = i"
    if "i < nat (width * height)" for i
    using pix_surj [OF that assms(1,2)] .
  have every: "visited st' ! i" if "i < nat (width * height)" for i
  proof -
    from idx [OF that] obtain x y where xy: "inBounds width height x y" "pix width x y = i"
      by blast
    then have "(x, y) \<in> set ?cells"
      by (auto simp: inBounds_def)
    with all have "(x, y) \<in> cellsOf width height (visited st')"
      by blast
    with xy show ?thesis
      by (simp add: cellsOf_def)
  qed
  have mono: "visited t2 ! i"
    if split: "?cells = cs1 @ cs2 @ cs3"
      and r1: "scanCells cfg width height heatmap gen cs1 ?init = Some t1"
      and r2: "scanCells cfg width height heatmap gen cs2 t1 = Some t2"
      and i: "i < nat (width * height)" and v: "visited t1 ! i"
    for cs1 cs2 cs3 t1 t2 i
  proof -
    have inb1: "inBounds width height x y" if "(x, y) \<in> set cs1" for x y
      using inb [of x y] that split by simp
    have inb2: "inBounds width height x y" if "(x, y) \<in> set cs2" for x y
      using inb [of x y] that split by simp
    from scanCells_result [OF inv0 inb1 assms(4), of cs1 cfg gen] r1
    have inv1: "scanInv width height t1"
      by auto
    from scanCells_result [OF inv1 inb2 assms(4), of cs2 cfg gen] r2
    have sub: "cellsOf width height (visited t1) \<subseteq> cellsOf width height (visited t2)"
      by auto
    from idx [OF i] obtain x y where xy: "inBounds width height x y" "pix width x y = i"
      by blast
    with v have "(x, y) \<in> cellsOf width height (visited t1)"
      by (simp add: cellsOf_def)
    with sub have "(x, y) \<in> cellsOf width height (visited t2)"
      by blast
    with xy show ?thesis
      by (simp add: cellsOf_def)
  qed
  from run total every mono show ?thesis
    unfolding processImage_scan_def by blast
qed

theorem every_pixel_visited_exactly_once_witness:
  "\<exists>st'. processImage_scan (exampleConfig 2 True) 2 1 [1, 1] (\<lambda>n. 200)
            (initialState 2 1 twoPixels) = Some st' \<and>
         sum_list (fillSizes st') = 2 * 1"
  using every_pixel_visited_exactly_once
    [of 2 1 twoPixels "[1, 1]" "exampleConfig 2 True" "\<lambda>n. 200"]
  by (auto simp: twoPixels_def)


section \<open>The bounding box of a region\<close>

text \<open>The pixels that the work on a region has visited: those visited in the state \<open>st'\<close>
  after it and not in the state \<open>st\<close> before it.\<close>

definition regionPixels :: "int \<Rightarrow> int \<Rightarrow> ScanState \<Rightarrow> ScanState \<Rightarrow> (int \<times> int) set" where
  "regionPixels width height st st' =
     cellsOf width height (visited st') - cellsOf width height (visited st)"

text \<open>
  C5, as the code has it. When the scan starts a region at an unvisited pixel, the pixels
  visited by its flood fill (the recoloured ones together with the rejected ones at the
  border) contain the seed; the four bounds are the least and greatest coordinates among
  them, so the box is the tight box of the visited pixels; the size is their number, and
  it is at most the area of the box. A record that is appended carries these bounds and
  this size, and its mask is the set of these pixels, moved to the origin of the box.
\<close>

theorem bounding_box_of_visited_pixels:
  assumes "scanInv width height st"
    and "inBounds width height x y"
    and "(x, y) \<notin> cellsOf width height (visited st)"
    and "length heatmap = nat (width * height)"
    and "processImage_region cfg width height heatmap gen x y st = Some st'"
  shows "(x, y) \<in> regionPixels width height st st' \<and>
         currentComponentXmin st' = Min (fst ` regionPixels width height st st') \<and>
         currentComponentXmax st' = Max (fst ` regionPixels width height st st') \<and>
         currentComponentYmin st' = Min (snd ` regionPixels width height st st') \<and>
         currentComponentYmax st' = Max (snd ` regionPixels width height st st') \<and>
         currentComponentSize st' = int (card (regionPixels width height st st')) \<and>
         currentComponentSize st' \<le>
           (currentComponentXmax st' - currentComponentXmin st' + 1) *
           (currentComponentYmax st' - currentComponentYmin st' + 1) \<and>
         (components st' = components st \<or>
          (\<exists>c. components st' = components st @ [c] \<and>
               xMin c = currentComponentXmin st' \<and> xMax c = currentComponentXmax st' \<and>
               yMin c = currentComponentYmin st' \<and> yMax c = currentComponentYmax st' \<and>
               size_comp c = currentComponentSize st' \<and>
               size_comp c \<le> (xMax c - xMin c + 1) * (yMax c - yMin c + 1) \<and>
               cellsOf (xMax c - xMin c + 1) (yMax c - yMin c + 1) (mask_comp c) =
                 (\<lambda>(cx, cy). (cx - xMin c, cy - yMin c)) ` regionPixels width height st st'))"
proof -
  note R = region_result [OF assms, folded regionPixels_def]
  let ?V = "regionPixels width height st st'"
  from R(11) have "components st' = components st \<or>
          (\<exists>c. components st' = components st @ [c] \<and>
               xMin c = Min (fst ` ?V) \<and> xMax c = Max (fst ` ?V) \<and>
               yMin c = Min (snd ` ?V) \<and> yMax c = Max (snd ` ?V) \<and>
               size_comp c = int (card ?V) \<and>
               size_comp c \<le> (xMax c - xMin c + 1) * (yMax c - yMin c + 1) \<and>
               cellsOf (xMax c - xMin c + 1) (yMax c - yMin c + 1) (mask_comp c) =
                 (\<lambda>(cx, cy). (cx - xMin c, cy - yMin c)) ` ?V)"
    using R(10) by auto
  with R(3,10) show ?thesis
    unfolding R(4,5,6,7,8) by blast
qed

theorem bounding_box_of_visited_pixels_witness:
  "\<exists>st'. processImage_region (exampleConfig 0 True) 2 1 [1, 1] (\<lambda>n. 200) 0 0
            (initialState 2 1 twoPixels) = Some st' \<and>
         (0, 0) \<in> regionPixels 2 1 (initialState 2 1 twoPixels) st' \<and>
         currentComponentXmax st' = Max (fst ` regionPixels 2 1 (initialState 2 1 twoPixels) st') \<and>
         currentComponentSize st' = int (card (regionPixels 2 1 (initialState 2 1 twoPixels) st'))"
proof -
  have inv: "scanInv 2 1 (initialState 2 1 twoPixels)"
    by (rule scanInv_initialState) (simp_all add: twoPixels_def)
  have ib: "inBounds 2 1 0 0"
    by (simp add: inBounds_def)
  have unv: "(0, 0) \<notin> cellsOf 2 1 (visited (initialState 2 1 twoPixels))"
    by (simp add: cellsOf_def initialState_def pix_def)
  have hm: "length [1, 1 :: real] = nat (2 * 1)"
    by simp
  from region_returns [OF inv ib unv hm] obtain st' where
    run: "processImage_region (exampleConfig 0 True) 2 1 [1, 1] (\<lambda>n. 200) 0 0
            (initialState 2 1 twoPixels) = Some st'"
    by blast
  from bounding_box_of_visited_pixels [OF inv ib unv hm run] run show ?thesis
    by blast
qed

text \<open>C5 as stated fails: with \<open>k = 0\<close> the second of the two pixels fails the colour
  test and keeps its colour, so the only included pixel is the first; the component has
  the bounds 0 and 1 in \<open>x\<close> all the same, and size 2.\<close>

theorem bounding_box_contains_rejected_pixel:
  "map_option image_buf
     (processImage_scan (exampleConfig 0 True) 2 1 [1, 1] (\<lambda>n. 200) (initialState 2 1 twoPixels))
     = Some [rgb 200 200 200, rgb 12 11 9] \<and>
   map_option (map xMin \<circ> components)
     (processImage_scan (exampleConfig 0 True) 2 1 [1, 1] (\<lambda>n. 200) (initialState 2 1 twoPixels))
     = Some [0] \<and>
   map_option (map xMax \<circ> components)
     (processImage_scan (exampleConfig 0 True) 2 1 [1, 1] (\<lambda>n. 200) (initialState 2 1 twoPixels))
     = Some [1] \<and>
   map_option (map size_comp \<circ> components)
     (processImage_scan (exampleConfig 0 True) 2 1 [1, 1] (\<lambda>n. 200) (initialState 2 1 twoPixels))
     = Some [2]"
  by code_simp

section \<open>The discard rule\<close>




section \<open>Pixels that fail the colour test\<close>

text \<open>The first \<open>n\<close> iterations of the loop of lines 56-91, from a stack and a store: the
  stack and the store that they leave. There is none when the loop ends before.\<close>

fun fillSteps ::
  "Config \<Rightarrow> int \<Rightarrow> int \<Rightarrow> nat \<Rightarrow> Color \<Rightarrow> nat \<Rightarrow> entry list \<Rightarrow> 'a Store_scheme
     \<Rightarrow> (entry list \<times> 'a Store_scheme) option" where
  "fillSteps cfg width height startColor newColor 0 stk s = Some (stk, s)"
| "fillSteps cfg width height startColor newColor (Suc n) [] s = None"
| "fillSteps cfg width height startColor newColor (Suc n) (ent # rest) s =
     (case floodFillStep cfg width height startColor newColor ent rest s of
        None \<Rightarrow> None
      | Some (stk', s') \<Rightarrow> fillSteps cfg width height startColor newColor n stk' s')"

lemma fillSteps_loop:
  assumes "fillSteps cfg width height startColor newColor n stk s = Some (stk', s')"
  shows "floodFillLoop cfg width height startColor newColor stk s =
         floodFillLoop cfg width height startColor newColor stk' s'"
  using assms
proof (induction n arbitrary: stk s)
  case 0
  then show ?case by simp
next
  case (Suc n)
  then obtain ent rest where stk: "stk = ent # rest"
    by (cases stk) auto
  with Suc.prems obtain stk1 s1 where
    step: "floodFillStep cfg width height startColor newColor ent rest s = Some (stk1, s1)"
    and rest: "fillSteps cfg width height startColor newColor n stk1 s1 = Some (stk', s')"
    by (auto split: option.splits)
  from Suc.IH [OF rest] step show ?case
    by (simp add: stk)
qed

lemma fillSteps_fillInv:
  assumes "fillSteps cfg width height startColor newColor n stk s = Some (stk', s')"
    and "fillInv width height s0 s"
  shows "fillInv width height s0 s'"
  using assms
proof (induction n arbitrary: stk s)
  case 0
  then show ?case by simp
next
  case (Suc n)
  then obtain ent rest where stk: "stk = ent # rest"
    by (cases stk) auto
  with Suc.prems obtain stk1 s1 where
    step: "floodFillStep cfg width height startColor newColor ent rest s = Some (stk1, s1)"
    and rest: "fillSteps cfg width height startColor newColor n stk1 s1 = Some (stk', s')"
    by (auto split: option.splits)
  from Suc.IH [OF rest fillInv_step [OF Suc.prems(2) step]] show ?case .
qed

lemma floodFillStep_keeps_colour:
  assumes step: "floodFillStep cfg width height startColor newColor e rest t = Some (stk', t')"
    and ib: "inBounds width height u v"
    and old: "(u, v) \<in> cellsOf width height (visited t) \<or> (u, v) \<notin> cellsOf width height (visited t')"
  shows "image_buf t' ! pix width u v = image_buf t ! pix width u v"
proof -
  obtain x y c where e: "e = (x, y, c)"
    by (cases e) auto
  from step [unfolded e] show ?thesis
  proof (cases rule: floodFillStep_cases)
    case skip
    then show ?thesis by simp
  next
    case visit
    have "(u, v) \<noteq> (x, y)"
    proof
      assume eq: "(u, v) = (x, y)"
      with visit(5) have "(u, v) \<notin> cellsOf width height (visited t)"
        by (simp add: cellsOf_def)
      moreover from eq visit(1,2,6) have "(u, v) \<in> cellsOf width height (visited t')"
        by (simp add: cellsOf_def)
      ultimately show False
        using old by simp
    qed
    with pix_inj [OF ib visit(1)] have "pix width u v \<noteq> pix width x y"
      by auto
    then show ?thesis
      by (simp add: visit(6))
  qed
qed

lemma floodFillLoop_keeps_colour:
  fixes s :: "'a Store_scheme"
  assumes run: "floodFillLoop cfg width height startColor newColor stk s = Some s'"
    and wf: "wellFormed width height s"
    and mem: "(u, v) \<in> cellsOf width height (visited s)"
  shows "image_buf s' ! pix width u v = image_buf s ! pix width u v"
proof -
  define I where "I = (\<lambda>(stk :: entry list) (t :: 'a Store_scheme).
      wellFormed width height t \<and> (u, v) \<in> cellsOf width height (visited t) \<and>
      image_buf t ! pix width u v = image_buf s ! pix width u v)"
  have "I stk s"
    using wf mem by (simp add: I_def)
  moreover have "I stk' t'"
    if "I (e # rest) t"
      and "floodFillStep cfg width height startColor newColor e rest t = Some (stk', t')"
    for e rest t stk' t'
  proof -
    from that(1) have wft: "wellFormed width height t"
      and memt: "(u, v) \<in> cellsOf width height (visited t)"
      and col: "image_buf t ! pix width u v = image_buf s ! pix width u v"
      by (simp_all add: I_def)
    from fillInv_step [OF fillInv_refl [OF wft] that(2)] have "wellFormed width height t'"
      by (simp add: fillInv_def)
    moreover from floodFillStep_mono [OF wft that(2)] memt
    have "(u, v) \<in> cellsOf width height (visited t')"
      by auto
    moreover from floodFillStep_keeps_colour [OF that(2) cellsOf_inBounds [OF memt]] memt col
    have "image_buf t' ! pix width u v = image_buf s ! pix width u v"
      by simp
    ultimately show ?thesis
      by (simp add: I_def)
  qed
  ultimately have "I [] s'"
    by (rule floodFillLoop_rule [OF run])
  then show ?thesis
    by (simp add: I_def)
qed

lemma fillSteps_unvisited_colour:
  assumes "fillSteps cfg width height startColor newColor n stk s = Some (stk', s')"
    and "wellFormed width height s"
    and "inBounds width height u v"
    and "(u, v) \<notin> cellsOf width height (visited s')"
  shows "image_buf s' ! pix width u v = image_buf s ! pix width u v"
  using assms
proof (induction n arbitrary: stk s)
  case 0
  then show ?case by simp
next
  case (Suc n)
  then obtain ent rest where stk: "stk = ent # rest"
    by (cases stk) auto
  with Suc.prems obtain stk1 s1 where
    step: "floodFillStep cfg width height startColor newColor ent rest s = Some (stk1, s1)"
    and rest: "fillSteps cfg width height startColor newColor n stk1 s1 = Some (stk', s')"
    by (auto split: option.splits)
  from fillInv_step [OF fillInv_refl [OF Suc.prems(2)] step] have wf1: "wellFormed width height s1"
    by (simp add: fillInv_def)
  from fillSteps_fillInv [OF rest fillInv_refl [OF wf1]] Suc.prems(4)
  have unv1: "(u, v) \<notin> cellsOf width height (visited s1)"
    by (auto simp: fillInv_def)
  from Suc.IH [OF rest wf1 Suc.prems(3,4)]
    floodFillStep_keeps_colour [OF step Suc.prems(3)] unv1
  show ?case
    by simp
qed

lemma region_keeps_visited:
  assumes inv: "scanInv width height st"
    and ib: "inBounds width height x y"
    and unv: "(x, y) \<notin> cellsOf width height (visited st)"
    and hm: "length heatmap = nat (width * height)"
    and run: "processImage_region cfg width height heatmap gen x y st = Some st'"
    and mem: "(u, v) \<in> cellsOf width height (visited st)"
  shows "(u, v) \<in> cellsOf width height (visited st')"
    and "image_buf st' ! pix width u v = image_buf st ! pix width u v"
proof -
  from region_result(2) [OF inv ib unv hm run] mem
  show "(u, v) \<in> cellsOf width height (visited st')"
    by auto
  from inv have wf: "wellFormed width height (resetState width height st)"
    by (simp add: scanInv_def)
  from run obtain st2 where
    fill: "floodFillIterative cfg x y width height (nat (y * width + x)) (drawnColor gen st)
       (resetState width height st) = Some st2"
    and img: "image_buf st' = image_buf st2"
    by (rule processImage_region_common)
  from fill obtain stk where
    "floodFillLoop cfg width height (nat (y * width + x)) (drawnColor gen st) stk
       (resetState width height st) = Some st2"
    by (auto simp: floodFillIterative_def simp del: floodFillLoop_Cons split: if_splits)
  from floodFillLoop_keeps_colour [OF this wf, of u v] mem
  show "image_buf st' ! pix width u v = image_buf st ! pix width u v"
    by (simp add: img)
qed

lemma scanCells_keeps_visited:
  assumes "scanInv width height st"
    and "\<And>x y. (x, y) \<in> set cells \<Longrightarrow> inBounds width height x y"
    and hm: "length heatmap = nat (width * height)"
    and "scanCells cfg width height heatmap gen cells st = Some st'"
    and "(u, v) \<in> cellsOf width height (visited st)"
  shows "(u, v) \<in> cellsOf width height (visited st') \<and>
         image_buf st' ! pix width u v = image_buf st ! pix width u v"
  using assms(1,2,4,5)
proof (induction cells arbitrary: st)
  case Nil
  then show ?case by simp
next
  case (Cons p cells)
  obtain x y where p: "p = (x, y)"
    by (cases p) auto
  have ib: "inBounds width height x y"
    using Cons.prems(2) [of x y] by (simp add: p)
  from pixel_result [OF Cons.prems(1) ib hm, of cfg gen] obtain st1 where
    px: "processImage_pixel cfg width height heatmap gen x y st = Some st1"
    and inv1: "scanInv width height st1"
    by blast
  from Cons.prems(3) px have rest: "scanCells cfg width height heatmap gen cells st1 = Some st'"
    by (simp add: p)
  have keep: "(u, v) \<in> cellsOf width height (visited st1) \<and>
      image_buf st1 ! pix width u v = image_buf st ! pix width u v"
  proof (cases "(x, y) \<in> cellsOf width height (visited st)")
    case True
    from Cons.prems(1) pix_less [OF ib] have "pix width x y < length (visited st)"
      by (simp add: scanInv_def wellFormed_def)
    moreover from True ib have "visited st ! pix width x y"
      by (simp add: cellsOf_def)
    ultimately have "processImage_pixel cfg width height heatmap gen x y st = Some st"
      by (rule processImage_pixel_visited [OF ib])
    with px Cons.prems(4) show ?thesis
      by simp
  next
    case False
    with ib have nv: "\<not> visited st ! pix width x y"
      by (simp add: cellsOf_def)
    from ib have "0 \<le> y * width + x"
      by (simp add: inBounds_def)
    moreover from Cons.prems(1) pix_less [OF ib] have "pix width x y < length (visited st)"
      by (simp add: scanInv_def wellFormed_def)
    ultimately have "processImage_pixel cfg width height heatmap gen x y st =
        processImage_region cfg width height heatmap gen x y st"
      using nv by (simp add: processImage_pixel_def cellIndex_def pix_def Let_def)
    with px have "processImage_region cfg width height heatmap gen x y st = Some st1"
      by simp
    from region_keeps_visited [OF Cons.prems(1) ib False hm this Cons.prems(4)]
    show ?thesis
      by simp
  qed
  have "\<And>x y. (x, y) \<in> set cells \<Longrightarrow> inBounds width height x y"
    using Cons.prems(2) by simp
  from Cons.IH [OF inv1 this rest] keep show ?case
    by simp
qed

text \<open>
  C6, as the code has it. Suppose the flood fill of a region, started by the scan at an
  unvisited pixel \<open>(x0, y0)\<close>, pops after some iterations an unvisited pixel \<open>(x, y)\<close> that
  fails the colour test. That iteration leaves the colours alone and pushes nothing, but
  it marks the pixel visited and in the scratch mask, adds one to the size and extends the
  bounding box to the pixel. The work on the region returns; the pixel is one of the
  pixels of this region, lies inside its box and, when the region is kept, in the mask of
  its record, and it still has the colour it had before the region. From then on, however
  far the scan proceeds, the pixel stays visited and keeps that colour, and the scan step
  at the pixel changes nothing: the pixel seeds no region.
\<close>

theorem rejected_pixel_joins_current_region:
  assumes inv: "scanInv width height st"
    and seed: "inBounds width height x0 y0"
    and fresh: "(x0, y0) \<notin> cellsOf width height (visited st)"
    and hm: "length heatmap = nat (width * height)"
    and reach: "fillSteps cfg width height (pix width x0 y0) (drawnColor gen st) n
                  [(x0, y0, image_buf st ! pix width x0 y0)] (resetState width height st) =
                Some ((x, y, c) # rest, s)"
    and ib: "inBounds width height x y"
    and unv: "\<not> visited s ! pix width x y"
    and rej: "k cfg < colorDifference (image_buf s ! pix width x y)
                   (if adj cfg then c else image_buf s ! pix width x0 y0) (euclidif cfg)"
  shows "floodFillStep cfg width height (pix width x0 y0) (drawnColor gen st) (x, y, c) rest s =
           Some (rest,
                 s\<lparr>currentComponentXmin := min (currentComponentXmin s) x,
                    currentComponentXmax := max (currentComponentXmax s) x,
                    currentComponentYmin := min (currentComponentYmin s) y,
                    currentComponentYmax := max (currentComponentYmax s) y,
                    currentComponentSize := currentComponentSize s + 1,
                    visited := (visited s)[pix width x y := True],
                    bigMask := (bigMask s)[pix width x y := True]\<rparr>) \<and>
         (\<exists>st'. processImage_region cfg width height heatmap gen x0 y0 st = Some st' \<and>
            (x, y) \<in> regionPixels width height st st' \<and>
            currentComponentXmin st' \<le> x \<and> x \<le> currentComponentXmax st' \<and>
            currentComponentYmin st' \<le> y \<and> y \<le> currentComponentYmax st' \<and>
            currentComponentSize st' = int (card (regionPixels width height st st')) \<and>
            image_buf st' ! pix width x y = image_buf st ! pix width x y \<and>
            (components st' = components st \<or>
             (\<exists>cmp. components st' = components st @ [cmp] \<and>
                (x - xMin cmp, y - yMin cmp) \<in>
                  cellsOf (xMax cmp - xMin cmp + 1) (yMax cmp - yMin cmp + 1) (mask_comp cmp))) \<and>
            (\<forall>cells t'. (\<forall>(cx, cy) \<in> set cells. inBounds width height cx cy) \<and>
                 scanCells cfg width height heatmap gen cells st' = Some t' \<longrightarrow>
                 visited t' ! pix width x y \<and>
                 image_buf t' ! pix width x y = image_buf st ! pix width x y \<and>
                 processImage_pixel cfg width height heatmap gen x y t' = Some t'))"
proof -
  let ?sc = "pix width x0 y0" and ?nc = "drawnColor gen st"
  let ?s0 = "resetState width height st"
  let ?p = "pix width x y"
  let ?s1 = "s\<lparr>currentComponentXmin := min (currentComponentXmin s) x,
                currentComponentXmax := max (currentComponentXmax s) x,
                currentComponentYmin := min (currentComponentYmin s) y,
                currentComponentYmax := max (currentComponentYmax s) y,
                currentComponentSize := currentComponentSize s + 1,
                visited := (visited s)[?p := True],
                bigMask := (bigMask s)[?p := True]\<rparr>"
  from inv have wf0: "wellFormed width height ?s0"
    by (simp add: scanInv_def)
  from fillSteps_fillInv [OF reach fillInv_refl [OF wf0]]
  have inv_s: "fillInv width height ?s0 s" .
  then have wf: "wellFormed width height s"
    and mono0: "cellsOf width height (visited st) \<subseteq> cellsOf width height (visited s)"
    by (simp_all add: fillInv_def)
  from wf pix_less [OF ib] pix_less [OF seed] have len:
    "?p < length (visited s)" "?p < length (bigMask s)" "?p < length (image_buf s)"
    "adj cfg \<or> ?sc < length (image_buf s)"
    by (simp_all add: wellFormed_def)
  from rej have nacc: "\<not> accepts cfg ?sc c s ?p"
    by (simp add: accepts_def)
  have step: "floodFillStep cfg width height ?sc ?nc (x, y, c) rest s = Some (rest, ?s1)"
    using nacc by (simp add: floodFillStep_visit [OF ib len unv])
  have wf1: "wellFormed width height ?s1"
    using wf by (simp add: wellFormed_def)
  have vis1: "(x, y) \<in> cellsOf width height (visited ?s1)"
    using ib len(1) by (simp add: cellsOf_def)
  have img1: "image_buf ?s1 = image_buf s"
    by simp
  from unv have notin_s: "(x, y) \<notin> cellsOf width height (visited s)"
    by (simp add: cellsOf_def)
  with mono0 have notin_st: "(x, y) \<notin> cellsOf width height (visited st)"
    by auto
  from fillSteps_unvisited_colour [OF reach wf0 ib notin_s]
  have col_s: "image_buf s ! ?p = image_buf st ! ?p"
    by simp
  from region_returns [OF inv seed fresh hm] obtain st' where
    run: "processImage_region cfg width height heatmap gen x0 y0 st = Some st'"
    by blast
  from run obtain st2 where
    fill: "floodFillIterative cfg x0 y0 width height (nat (y0 * width + x0)) ?nc ?s0 = Some st2"
    and vis: "visited st' = visited st2" and img: "image_buf st' = image_buf st2"
    by (rule processImage_region_common)
  from wf0 pix_less [OF seed] have "\<not> length (image_buf ?s0) \<le> ?sc"
    by (simp add: wellFormed_def)
  with fill have "floodFillLoop cfg width height ?sc ?nc [(x0, y0, image_buf st ! ?sc)] ?s0 = Some st2"
    by (simp add: floodFillIterative_def pix_def del: floodFillLoop_Cons)
  with fillSteps_loop [OF reach]
  have "floodFillLoop cfg width height ?sc ?nc ((x, y, c) # rest) s = Some st2"
    by simp
  with step have tail: "floodFillLoop cfg width height ?sc ?nc rest ?s1 = Some st2"
    by simp
  from floodFillLoop_fillInv [OF tail wf1] vis1
  have "(x, y) \<in> cellsOf width height (visited st2)"
    by (auto simp: fillInv_def)
  with vis have in_st': "(x, y) \<in> cellsOf width height (visited st')"
    by simp
  with notin_st have memV: "(x, y) \<in> regionPixels width height st st'"
    by (simp add: regionPixels_def)
  from floodFillLoop_keeps_colour [OF tail wf1 vis1] img col_s
  have col': "image_buf st' ! ?p = image_buf st ! ?p"
    by simp
  note R = region_result [OF inv seed fresh hm run, folded regionPixels_def]
  have fin: "finite (fst ` regionPixels width height st st')"
    "finite (snd ` regionPixels width height st st')"
    by (simp_all add: regionPixels_def)
  from memV have mem: "x \<in> fst ` regionPixels width height st st'"
    "y \<in> snd ` regionPixels width height st st'"
    by (auto intro: rev_image_eqI)
  have box: "currentComponentXmin st' \<le> x" "x \<le> currentComponentXmax st'"
    "currentComponentYmin st' \<le> y" "y \<le> currentComponentYmax st'"
    unfolding R(4,5,6,7) using fin mem by simp_all
  have comps: "components st' = components st \<or>
      (\<exists>cmp. components st' = components st @ [cmp] \<and>
         (x - xMin cmp, y - yMin cmp) \<in>
           cellsOf (xMax cmp - xMin cmp + 1) (yMax cmp - yMin cmp + 1) (mask_comp cmp))"
  proof (cases "components st' = components st")
    case True
    then show ?thesis by simp
  next
    case False
    with R(11) obtain cmp where cmp: "components st' = components st @ [cmp]"
      and msk: "cellsOf (xMax cmp - xMin cmp + 1) (yMax cmp - yMin cmp + 1) (mask_comp cmp) =
                (\<lambda>(cx, cy). (cx - xMin cmp, cy - yMin cmp)) ` regionPixels width height st st'"
      by blast
    from memV have "(x - xMin cmp, y - yMin cmp) \<in>
        (\<lambda>(cx, cy). (cx - xMin cmp, cy - yMin cmp)) ` regionPixels width height st st'"
      by (auto intro: rev_image_eqI)
    with cmp msk show ?thesis
      by blast
  qed
  have later: "visited t' ! ?p \<and> image_buf t' ! ?p = image_buf st ! ?p \<and>
      processImage_pixel cfg width height heatmap gen x y t' = Some t'"
    if cells: "\<forall>(cx, cy) \<in> set cells. inBounds width height cx cy"
      and scan: "scanCells cfg width height heatmap gen cells st' = Some t'"
    for cells t'
  proof -
    from cells have cib: "\<And>cx cy. (cx, cy) \<in> set cells \<Longrightarrow> inBounds width height cx cy"
      by auto
    from scanCells_keeps_visited [OF R(1) cib hm scan in_st'] col'
    have a: "(x, y) \<in> cellsOf width height (visited t')"
      and b: "image_buf t' ! ?p = image_buf st ! ?p"
      by simp_all
    from scanCells_result [where cells = cells and cfg = cfg and gen = gen, OF R(1) _ hm] cib scan
    have "scanInv width height t'"
      by auto
    with pix_less [OF ib] have l: "?p < length (visited t')"
      by (simp add: scanInv_def wellFormed_def)
    from a have v: "visited t' ! ?p"
      by (simp add: cellsOf_def)
    from processImage_pixel_visited [OF ib l v] b v show ?thesis
      by simp
  qed
  from step run memV box R(8) col' comps later show ?thesis
    by blast
qed

theorem rejected_pixel_joins_current_region_witness:
  "\<exists>s st'.
     fillSteps (exampleConfig 2 True) 2 1 (pix 2 0 0)
       (drawnColor (\<lambda>n. 200) (initialState 2 1 twoPixels)) 4
       [(0, 0, image_buf (initialState 2 1 twoPixels) ! pix 2 0 0)]
       (resetState 2 1 (initialState 2 1 twoPixels)) = Some ([(1, 0, rgb 10 10 10)], s) \<and>
     floodFillStep (exampleConfig 2 True) 2 1 (pix 2 0 0)
       (drawnColor (\<lambda>n. 200) (initialState 2 1 twoPixels)) (1, 0, rgb 10 10 10) [] s =
       Some ([], s\<lparr>currentComponentXmin := min (currentComponentXmin s) 1,
                    currentComponentXmax := max (currentComponentXmax s) 1,
                    currentComponentYmin := min (currentComponentYmin s) 0,
                    currentComponentYmax := max (currentComponentYmax s) 0,
                    currentComponentSize := currentComponentSize s + 1,
                    visited := (visited s)[pix 2 1 0 := True],
                    bigMask := (bigMask s)[pix 2 1 0 := True]\<rparr>) \<and>
     processImage_region (exampleConfig 2 True) 2 1 [1, 1] (\<lambda>n. 200) 0 0
       (initialState 2 1 twoPixels) = Some st' \<and>
     (1, 0) \<in> regionPixels 2 1 (initialState 2 1 twoPixels) st' \<and>
     1 \<le> currentComponentXmax st' \<and>
     image_buf st' ! pix 2 1 0 = rgb 12 11 9 \<and>
     processImage_pixel (exampleConfig 2 True) 2 1 [1, 1] (\<lambda>n. 200) 1 0 st' = Some st'"
proof -
  let ?cfg = "exampleConfig 2 True" and ?gen = "\<lambda>n :: nat. 200 :: 8 word"
  let ?st = "initialState 2 1 twoPixels"
  have inv: "scanInv 2 1 ?st"
    by (rule scanInv_initialState) (simp_all add: twoPixels_def)
  have seed: "inBounds 2 1 0 0" and ib: "inBounds 2 1 1 0"
    by (simp_all add: inBounds_def)
  have fresh: "(0, 0) \<notin> cellsOf 2 1 (visited ?st)"
    by (simp add: cellsOf_def initialState_def pix_def)
  have hm: "length [1, 1 :: real] = nat (2 * 1)"
    by simp
  have "map_option (\<lambda>(stk, s). (stk, visited s, image_buf s))
      (fillSteps ?cfg 2 1 (pix 2 0 0) (drawnColor ?gen ?st) 4
         [(0, 0, image_buf ?st ! pix 2 0 0)] (resetState 2 1 ?st)) =
      Some ([(1, 0, rgb 10 10 10)], [True, False], [rgb 200 200 200, rgb 12 11 9])"
    by code_simp
  then obtain s where
    reach: "fillSteps ?cfg 2 1 (pix 2 0 0) (drawnColor ?gen ?st) 4
         [(0, 0, image_buf ?st ! pix 2 0 0)] (resetState 2 1 ?st) = Some ((1, 0, rgb 10 10 10) # [], s)"
    and vs: "visited s = [True, False]"
    and im: "image_buf s = [rgb 200 200 200, rgb 12 11 9]"
    by auto
  have unv: "\<not> visited s ! pix 2 1 0"
    by (simp add: vs pix_def)
  have rej: "k ?cfg < colorDifference (image_buf s ! pix 2 1 0)
      (if adj ?cfg then rgb 10 10 10 else image_buf s ! pix 2 0 0) (euclidif ?cfg)"
    by (simp add: im pix_def exampleConfig_def colorDifference_def rgb_def)
  have orig: "image_buf ?st ! pix 2 1 0 = rgb 12 11 9"
    by (simp add: initialState_def twoPixels_def pix_def)
  note inst = rejected_pixel_joins_current_region [OF inv seed fresh hm reach ib unv rej]
  from inst obtain st' where
    run: "processImage_region ?cfg 2 1 [1, 1] ?gen 0 0 ?st = Some st'"
    and mem: "(1, 0) \<in> regionPixels 2 1 ?st st'"
    and box: "1 \<le> currentComponentXmax st'"
    and col: "image_buf st' ! pix 2 1 0 = image_buf ?st ! pix 2 1 0"
    and later: "\<forall>cells t'. (\<forall>(cx, cy) \<in> set cells. inBounds 2 1 cx cy) \<and>
                 scanCells ?cfg 2 1 [1, 1] ?gen cells st' = Some t' \<longrightarrow>
                 visited t' ! pix 2 1 0 \<and>
                 image_buf t' ! pix 2 1 0 = image_buf ?st ! pix 2 1 0 \<and>
                 processImage_pixel ?cfg 2 1 [1, 1] ?gen 1 0 t' = Some t'"
    by blast
  from later [rule_format, of "[]" st']
  have skip: "processImage_pixel ?cfg 2 1 [1, 1] ?gen 1 0 st' = Some st'"
    by simp
  from inst have step: "floodFillStep ?cfg 2 1 (pix 2 0 0) (drawnColor ?gen ?st) (1, 0, rgb 10 10 10) [] s =
       Some ([], s\<lparr>currentComponentXmin := min (currentComponentXmin s) 1,
                    currentComponentXmax := max (currentComponentXmax s) 1,
                    currentComponentYmin := min (currentComponentYmin s) 0,
                    currentComponentYmax := max (currentComponentYmax s) 0,
                    currentComponentSize := currentComponentSize s + 1,
                    visited := (visited s)[pix 2 1 0 := True],
                    bigMask := (bigMask s)[pix 2 1 0 := True]\<rparr>)"
    by blast
  from reach step run mem box col orig skip show ?thesis
    by (intro exI [of _ s] exI [of _ st'] conjI) simp_all
qed

text \<open>C6 as stated fails on the specification's own example (\<open>k = 2\<close>): the second pixel
  fails the test and keeps its colour, yet the scan makes a single flood fill, of size 2;
  the pixel has not seeded a region.\<close>

theorem rejected_pixel_seeds_nothing:
  "map_option fillSizes
     (processImage_scan (exampleConfig 2 True) 2 1 [1, 1] (\<lambda>n. 200) (initialState 2 1 twoPixels))
     = Some [2] \<and>
   map_option image_buf
     (processImage_scan (exampleConfig 2 True) 2 1 [1, 1] (\<lambda>n. 200) (initialState 2 1 twoPixels))
     = Some [rgb 200 200 200, rgb 12 11 9] \<and>
   map_option visited
     (processImage_scan (exampleConfig 2 True) 2 1 [1, 1] (\<lambda>n. 200) (initialState 2 1 twoPixels))
     = Some [True, True]"
  by code_simp

section \<open>The fill colour and the comparison colour\<close>

text \<open>Two stores that differ at most in the colours of visited pixels.\<close>

definition sameStore :: "'a Store_scheme \<Rightarrow> 'a Store_scheme \<Rightarrow> bool" where
  "sameStore s t \<longleftrightarrow>
     visited s = visited t \<and> bigMask s = bigMask t \<and>
     currentComponentXmin s = currentComponentXmin t \<and>
     currentComponentXmax s = currentComponentXmax t \<and>
     currentComponentYmin s = currentComponentYmin t \<and>
     currentComponentYmax s = currentComponentYmax t \<and>
     currentComponentSize s = currentComponentSize t \<and>
     length (image_buf s) = length (image_buf t) \<and>
     (\<forall>i < length (image_buf s).
        (i < length (visited s) \<and> visited s ! i) \<or> image_buf s ! i = image_buf t ! i)"

lemma floodFillStep_short:
  assumes "inBounds width height x y" and "length (visited s) \<le> pix width x y"
  shows "floodFillStep cfg width height startColor newColor (x, y, c) rest s = None"
proof -
  from assms(1) have "\<not> (x < 0 \<or> width \<le> x \<or> y < 0 \<or> height \<le> y)"
    by (auto simp: inBounds_def)
  with assms(2) show ?thesis
    by (simp add: floodFillStep_def pix_def Let_def)
qed

lemma floodFillStep_sameStore:
  assumes rel: "sameStore s t" and adj: "adj cfg"
    and step: "floodFillStep cfg width height startColor colorA e rest s = Some (stk', s')"
  shows "\<exists>t'. floodFillStep cfg width height startColor colorB e rest t = Some (stk', t') \<and>
              sameStore s' t'"
proof -
  obtain x y c where e: "e = (x, y, c)"
    by (cases e) auto
  from rel have vis: "visited t = visited s" and msk: "bigMask t = bigMask s"
    and len: "length (image_buf t) = length (image_buf s)"
    by (simp_all add: sameStore_def)
  show ?thesis
  proof (cases "inBounds width height x y")
    case False
    with step rel show ?thesis
      by (simp add: e floodFillStep_outside)
  next
    case ib: True
    let ?i = "pix width x y"
    have lv: "?i < length (visited s)"
      using step floodFillStep_short [OF ib, of s cfg startColor colorA c rest]
      by (cases "?i < length (visited s)") (simp_all add: e)
    show ?thesis
    proof (cases "visited s ! ?i")
      case True
      with step rel ib lv show ?thesis
        by (simp add: e floodFillStep_seen vis)
    next
      case False
      from step [unfolded e] have "?i < length (bigMask s) \<and> ?i < length (image_buf s)"
      proof (cases rule: floodFillStep_cases)
        case skip
        with ib False show ?thesis
          by simp
      next
        case visit
        then show ?thesis
          by simp
      qed
      then have lens: "?i < length (bigMask s)" "?i < length (image_buf s)"
        by simp_all
      from rel lens(2) lv False have same: "image_buf t ! ?i = image_buf s ! ?i"
        by (auto simp: sameStore_def)
      have acc: "accepts cfg startColor c t ?i = accepts cfg startColor c s ?i"
        using adj by (simp add: accepts_def same)
      have A: "adj cfg \<or> startColor < length (image_buf s)"
        and B: "adj cfg \<or> startColor < length (image_buf t)"
        using adj by simp_all
      have lvB: "?i < length (visited t)" and lmB: "?i < length (bigMask t)"
        and liB: "?i < length (image_buf t)" and nvB: "\<not> visited t ! ?i"
        using lv lens False by (simp_all add: vis msk len)
      note stepA = floodFillStep_visit [OF ib lv lens A False, of colorA c rest]
      note stepB = floodFillStep_visit [OF ib lvB lmB liB B nvB, of colorB c rest]
      define imgA where "imgA = (if accepts cfg startColor c s ?i
                                 then (image_buf s)[?i := colorA] else image_buf s)"
      define imgB where "imgB = (if accepts cfg startColor c s ?i
                                 then (image_buf t)[?i := colorB] else image_buf t)"
      define stkN where "stkN = (if accepts cfg startColor c s ?i
           then rev (pushed (use8Way cfg) x y (image_buf s ! ?i)) @ rest else rest)"
      let ?s' = "s\<lparr>currentComponentXmin := min (currentComponentXmin s) x,
                   currentComponentXmax := max (currentComponentXmax s) x,
                   currentComponentYmin := min (currentComponentYmin s) y,
                   currentComponentYmax := max (currentComponentYmax s) y,
                   currentComponentSize := currentComponentSize s + 1,
                   visited := (visited s)[?i := True],
                   bigMask := (bigMask s)[?i := True],
                   image_buf := imgA\<rparr>"
      let ?t' = "t\<lparr>currentComponentXmin := min (currentComponentXmin t) x,
                   currentComponentXmax := max (currentComponentXmax t) x,
                   currentComponentYmin := min (currentComponentYmin t) y,
                   currentComponentYmax := max (currentComponentYmax t) y,
                   currentComponentSize := currentComponentSize t + 1,
                   visited := (visited t)[?i := True],
                   bigMask := (bigMask t)[?i := True],
                   image_buf := imgB\<rparr>"
      from step have "Some (stk', s') = Some (stkN, ?s')"
        unfolding e stepA imgA_def stkN_def by simp
      then have stk': "stk' = stkN" and s': "s' = ?s'"
        by simp_all
      have runB: "floodFillStep cfg width height startColor colorB e rest t = Some (stk', ?t')"
        unfolding e stepB stk' stkN_def imgB_def acc same by (rule refl)
      have limg: "length imgA = length imgB"
        by (simp add: imgA_def imgB_def len)
      have pix: "(j < length ((visited s)[?i := True]) \<and> (visited s)[?i := True] ! j) \<or>
                 imgA ! j = imgB ! j" if "j < length imgA" for j
      proof (cases "j = ?i")
        case True
        with lv show ?thesis
          by simp
      next
        case False
        from that have "j < length (image_buf s)"
          by (simp add: imgA_def split: if_splits)
        with rel have "(j < length (visited s) \<and> visited s ! j) \<or>
            image_buf s ! j = image_buf t ! j"
          unfolding sameStore_def by blast
        with False show ?thesis
          by (auto simp: imgA_def imgB_def)
      qed
      have "sameStore ?s' ?t'"
        unfolding sameStore_def using rel limg pix
        by (simp add: sameStore_def)
      with runB s' show ?thesis
        by blast
    qed
  qed
qed

lemma floodFillLoop_sameStore:
  assumes "floodFillLoop cfg width height startColor colorA stk s = Some s'"
    and "sameStore s t" and "adj cfg"
  shows "\<exists>t'. floodFillLoop cfg width height startColor colorB stk t = Some t' \<and> sameStore s' t'"
  using assms
proof (induction cfg width height startColor colorA stk s arbitrary: t rule: floodFillLoop.induct)
  case (1 cfg width height startColor colorA stk s)
  show ?case
  proof (cases stk)
    case Nil
    with "1.prems" show ?thesis
      by simp
  next
    case (Cons e rest)
    with "1.prems"(1) obtain stk' s1 where
      st: "floodFillStep cfg width height startColor colorA e rest s = Some (stk', s1)"
      and lp: "floodFillLoop cfg width height startColor colorA stk' s1 = Some s'"
      by (auto split: option.splits)
    from floodFillStep_sameStore [OF "1.prems"(2,3) st] obtain t1 where
      stB: "floodFillStep cfg width height startColor colorB e rest t = Some (stk', t1)"
      and rel1: "sameStore s1 t1"
      by blast
    from "1.IH" [OF Cons st refl lp rel1 "1.prems"(3)] obtain t' where
      "floodFillLoop cfg width height startColor colorB stk' t1 = Some t'" "sameStore s' t'"
      by blast
    with stB Cons show ?thesis
      by simp
  qed
qed


definition sameScan :: "ScanState \<Rightarrow> ScanState \<Rightarrow> bool" where
  "sameScan st tt \<longleftrightarrow>
     sameStore st tt \<and> components st = components tt \<and>
     componentCount st = componentCount tt \<and> genPos st = genPos tt \<and>
     fillSizes st = fillSizes tt"

lemma sameStore_resetState:
  "sameStore st tt \<Longrightarrow> sameStore (resetState width height st) (resetState width height tt)"
  by (auto simp: sameStore_def)

lemma region_sameScan:
  assumes rel: "sameScan st tt" and adj: "adj cfg"
    and seed: "nat (y * width + x) < length (visited st)" "\<not> visited st ! nat (y * width + x)"
    and runA: "processImage_region cfg width height heatmap genA x y st = Some st'"
  shows "\<exists>tt'. processImage_region cfg width height heatmap genB x y tt = Some tt' \<and>
               sameScan st' tt'"
proof -
  let ?j = "nat (y * width + x)"
  from rel have store: "sameStore st tt"
    and more: "components st = components tt" "componentCount st = componentCount tt"
      "genPos st = genPos tt" "fillSizes st = fillSizes tt"
    by (simp_all add: sameScan_def)
  have fillB: "\<exists>tt2. floodFillIterative cfg x y width height ?j (drawnColor genB tt)
                  (resetState width height tt) = Some tt2 \<and> sameStore st2 tt2"
    if fill: "floodFillIterative cfg x y width height ?j (drawnColor genA st)
                  (resetState width height st) = Some st2" for st2
  proof -
    from fill have lj: "?j < length (image_buf st)"
      and loop: "floodFillLoop cfg width height ?j (drawnColor genA st)
                   [(x, y, image_buf st ! ?j)] (resetState width height st) = Some st2"
      by (simp_all add: floodFillIterative_def del: floodFillLoop_Cons split: if_splits)
    from store lj seed have same: "image_buf tt ! ?j = image_buf st ! ?j"
      and len: "length (image_buf tt) = length (image_buf st)"
      by (auto simp: sameStore_def)
    from floodFillLoop_sameStore [OF loop sameStore_resetState [OF store] adj,
        of "drawnColor genB tt"]
    obtain tt2 where "floodFillLoop cfg width height ?j (drawnColor genB tt)
                   [(x, y, image_buf st ! ?j)] (resetState width height tt) = Some tt2"
      and "sameStore st2 tt2"
      by blast
    with lj show ?thesis
      by (simp add: floodFillIterative_def same len del: floodFillLoop_Cons)
  qed
  have after: "components st2 = components st \<and> componentCount st2 = componentCount st \<and>
      genPos st2 = genPos st + 3 \<and> fillSizes st2 = fillSizes st"
    if "floodFillIterative cfg x y width height ?j c (resetState width height st) = Some st2"
    for st st2 c
    using more_eq_ScanState [OF floodFillIterative_more [OF that]] by simp
  note unf = processImage_region_def drawnColor_def [symmetric] resetState_def [symmetric]
  from runA show ?thesis
  proof (cases rule: processImage_region_cases)
    case (drop st2 m)
    from fillB [OF drop(1)] obtain tt2 where
      fB: "floodFillIterative cfg x y width height ?j (drawnColor genB tt)
             (resetState width height tt) = Some tt2"
      and rel2: "sameStore st2 tt2"
      by blast
    from rel2 have g: "currentComponentXmin tt2 = currentComponentXmin st2"
      "currentComponentXmax tt2 = currentComponentXmax st2"
      "currentComponentYmin tt2 = currentComponentYmin st2"
      "currentComponentYmax tt2 = currentComponentYmax st2"
      "currentComponentSize tt2 = currentComponentSize st2"
      "bigMask tt2 = bigMask st2" "visited tt2 = visited st2"
      by (simp_all add: sameStore_def)
    let ?tt3 = "tt2\<lparr>fillSizes := fillSizes tt2 @ [currentComponentSize tt2]\<rparr>"
    have d3: "dropped cfg ?tt3 = dropped cfg tt2"
      by (rule dropped_cong) simp_all
    have d: "dropped cfg tt2"
      using drop(2) dropped_cong [of tt2 st2 cfg] by (simp add: g)
    have clearB: "clearCells width
             (columnMajor (currentComponentXmin tt2) (currentComponentXmax tt2)
                (currentComponentYmin tt2) (currentComponentYmax tt2)) (bigMask tt2) = Some m"
      using drop(3) by (simp add: g)
    let ?tt' = "?tt3\<lparr>bigMask := m\<rparr>"
    have "processImage_region cfg width height heatmap genB x y tt = Some ?tt'"
      unfolding unf by (simp add: fB Let_def d3 d clearB)
    moreover have "sameScan st' ?tt'"
      using rel2 after [OF drop(1)] after [OF fB] more
      unfolding drop(4) sameScan_def sameStore_def by auto
    ultimately show ?thesis
      by blast
  next
    case (keep st2 m msk avgProb)
    from fillB [OF keep(1)] obtain tt2 where
      fB: "floodFillIterative cfg x y width height ?j (drawnColor genB tt)
             (resetState width height tt) = Some tt2"
      and rel2: "sameStore st2 tt2"
      by blast
    from rel2 have g: "currentComponentXmin tt2 = currentComponentXmin st2"
      "currentComponentXmax tt2 = currentComponentXmax st2"
      "currentComponentYmin tt2 = currentComponentYmin st2"
      "currentComponentYmax tt2 = currentComponentYmax st2"
      "currentComponentSize tt2 = currentComponentSize st2"
      "bigMask tt2 = bigMask st2" "visited tt2 = visited st2"
      by (simp_all add: sameStore_def)
    let ?tt3 = "tt2\<lparr>fillSizes := fillSizes tt2 @ [currentComponentSize tt2]\<rparr>"
    have d3: "dropped cfg ?tt3 = dropped cfg tt2"
      by (rule dropped_cong) simp_all
    have d: "\<not> dropped cfg tt2"
      using keep(2) dropped_cong [of tt2 st2 cfg] by (simp add: g)
    have clearB: "clearCells width
             (columnMajor (currentComponentXmin tt2) (currentComponentXmax tt2)
                (currentComponentYmin tt2) (currentComponentYmax tt2)) (bigMask tt2) = Some m"
      using keep(3) by (simp add: g)
    have exB: "extractMask width heatmap (bigMask tt2)
             (currentComponentXmin tt2) (currentComponentXmax tt2)
             (currentComponentYmin tt2) (currentComponentYmax tt2) = Some (msk, avgProb)"
      using keep(4) by (simp add: g)
    let ?tt' = "?tt3\<lparr>bigMask := m,
                     components := components ?tt3 @
                       [\<lparr>id_comp = componentCount ?tt3 + 1,
                         xMin = currentComponentXmin ?tt3,
                         xMax = currentComponentXmax ?tt3,
                         yMin = currentComponentYmin ?tt3,
                         yMax = currentComponentYmax ?tt3,
                         size_comp = currentComponentSize ?tt3,
                         avgProbability = avgProb,
                         mask_comp = msk\<rparr>],
                     componentCount := componentCount ?tt3 + 1\<rparr>"
    have "processImage_region cfg width height heatmap genB x y tt = Some ?tt'"
      unfolding unf by (simp add: fB Let_def d3 d clearB exB)
    moreover have "sameScan st' ?tt'"
      using rel2 after [OF keep(1)] after [OF fB] more
      unfolding keep(5) sameScan_def sameStore_def by auto
    ultimately show ?thesis
      by blast
  qed
qed

lemma pixel_sameScan:
  assumes rel: "sameScan st tt" and adj: "adj cfg"
    and runA: "processImage_pixel cfg width height heatmap genA x y st = Some st'"
  shows "\<exists>tt'. processImage_pixel cfg width height heatmap genB x y tt = Some tt' \<and>
               sameScan st' tt'"
proof -
  from rel have vis: "visited tt = visited st"
    by (simp add: sameScan_def sameStore_def)
  from runA obtain j where j: "cellIndex width (visited st) x y = Some j"
    by (auto simp: processImage_pixel_def split: option.splits)
  then have jv: "j = nat (y * width + x)" "j < length (visited st)"
    by (auto simp: cellIndex_def Let_def split: if_splits)
  show ?thesis
  proof (cases "visited st ! j")
    case True
    with runA j have "st' = st"
      by (simp add: processImage_pixel_def)
    moreover from True j have "processImage_pixel cfg width height heatmap genB x y tt = Some tt"
      by (simp add: processImage_pixel_def vis)
    ultimately show ?thesis
      using rel by simp
  next
    case False
    with runA j have "processImage_region cfg width height heatmap genA x y st = Some st'"
      by (simp add: processImage_pixel_def)
    from region_sameScan [OF rel adj _ _ this, of genB] jv False obtain tt' where
      "processImage_region cfg width height heatmap genB x y tt = Some tt'" "sameScan st' tt'"
      by auto
    with False j show ?thesis
      by (simp add: processImage_pixel_def vis)
  qed
qed

lemma scanCells_sameScan:
  assumes "scanCells cfg width height heatmap genA cells st = Some st'"
    and "sameScan st tt" and "adj cfg"
  shows "\<exists>tt'. scanCells cfg width height heatmap genB cells tt = Some tt' \<and> sameScan st' tt'"
  using assms
proof (induction cells arbitrary: st tt)
  case Nil
  then show ?case by simp
next
  case (Cons p cells)
  obtain x y where p: "p = (x, y)"
    by (cases p) auto
  from Cons.prems(1) obtain st1 where
    px: "processImage_pixel cfg width height heatmap genA x y st = Some st1"
    and rest: "scanCells cfg width height heatmap genA cells st1 = Some st'"
    by (auto simp: p split: option.splits)
  from pixel_sameScan [OF Cons.prems(2,3) px] obtain tt1 where
    pxB: "processImage_pixel cfg width height heatmap genB x y tt = Some tt1"
    and rel1: "sameScan st1 tt1"
    by blast
  from Cons.IH [OF rest rel1 Cons.prems(3)] obtain tt' where
    "scanCells cfg width height heatmap genB cells tt1 = Some tt'" "sameScan st' tt'"
    by blast
  with pxB show ?case
    by (auto simp: p)
qed

text \<open>With \<open>adj = true\<close> the comparison colour is the copy carried on the stack, and the
  outcome of the scan does not depend on the colours drawn: a second run with another
  generator returns as well, with the same visited flags, flood-fill sizes and component
  records (boxes, sizes, average probabilities and masks).\<close>

lemma chained_comparison_ignores_fill_colour:
  assumes "adj cfg"
    and "processImage_scan cfg width height heatmap genA (initialState width height img) = Some stA"
  shows "\<exists>stB. processImage_scan cfg width height heatmap genB (initialState width height img) = Some stB \<and>
           components stB = components stA \<and> fillSizes stB = fillSizes stA \<and>
           visited stB = visited stA"
proof -
  have "sameScan (initialState width height img) (initialState width height img)"
    by (simp add: sameScan_def sameStore_def)
  from scanCells_sameScan [OF assms(2) [unfolded processImage_scan_def] this assms(1), of genB]
  show ?thesis
    by (auto simp: processImage_scan_def sameScan_def sameStore_def)
qed

text \<open>
  C7. With \<open>adj = false\<close> every pixel is meant to be compared with the colour of the seed,
  but \<^verbatim>\<open>startColor\<close> is a reference to the seed's entry of the image vector, and line 78
  overwrites that entry with the fill colour as soon as the seed is accepted. From then
  on the comparison colour is the random fill colour. On the row of three pixels with
  \<open>k = 5\<close>, a generator that yields the fill colour (10, 10, 10) gives one component of
  three pixels; one that yields (200, 200, 200) gives two components, of two pixels and
  of one.
\<close>

theorem fill_colour_changes_regions:
  "map_option (map size_comp \<circ> components)
     (processImage_scan (exampleConfig 5 False) 3 1 [1, 1, 1] (\<lambda>n. 10)
        (initialState 3 1 threePixels)) = Some [3] \<and>
   map_option (map xMax \<circ> components)
     (processImage_scan (exampleConfig 5 False) 3 1 [1, 1, 1] (\<lambda>n. 10)
        (initialState 3 1 threePixels)) = Some [2] \<and>
   map_option (map size_comp \<circ> components)
     (processImage_scan (exampleConfig 5 False) 3 1 [1, 1, 1] (\<lambda>n. 200)
        (initialState 3 1 threePixels)) = Some [2, 1] \<and>
   map_option (map xMax \<circ> components)
     (processImage_scan (exampleConfig 5 False) 3 1 [1, 1, 1] (\<lambda>n. 200)
        (initialState 3 1 threePixels)) = Some [1, 2]"
  by code_simp

end
